theory Spec2Isabelle
  imports Main "HOL-Library.Word" "HOL-Library.Sublist"
begin

section \<open>Data model of the unit progress hook\<close>

text \<open>
  The embedding follows \<^verbatim>\<open>pkg/sources/job_progress_hook.go\<close>. A point in time is
  a number of nanoseconds; a \<^verbatim>\<open>*time.Time\<close> is an optional time.
\<close>

type_synonym Time = int

text \<open>
  Modelled from the spec: the \<^verbatim>\<open>SourceUnit\<close> interface is declared outside the given
  sources. It exposes one capability, a string identifier; a nil unit is \<open>None\<close>.
\<close>

datatype SourceUnit = SourceUnit (SourceUnitID: string)

text \<open>
  Modelled from the spec: errors and the unit-scoped wrapper \<^verbatim>\<open>ChunkError\<close> are
  declared outside the given sources. An error is a plain error, an error wrapping
  another one, or a \<^verbatim>\<open>ChunkError\<close> carrying a (possibly nil) unit and a cause.
  \<open>errors_As\<close> is \<^verbatim>\<open>errors.As(err, &chunkErr)\<close>: the first \<^verbatim>\<open>ChunkError\<close> of the
  chain, if there is one.
\<close>

datatype error =
    PlainError string
  | WrappedError string error
  | ChunkError "SourceUnit option" error

fun errors_As :: "error \<Rightarrow> SourceUnit option option" where
  "errors_As (PlainError s) = None"
| "errors_As (WrappedError s e) = errors_As e"
| "errors_As (ChunkError unit e) = Some unit"

text \<open>
  Modelled from the spec: the job snapshot (\<^verbatim>\<open>JobProgressMetrics\<close>) and the job
  reference (\<^verbatim>\<open>JobProgressRef\<close>) are declared outside the given sources. The
  reference holds the two integer identifiers and gives access to the job's
  snapshot; \<open>jobProgress\<close> is the value \<^verbatim>\<open>ref.Snapshot()\<close> returns at the call.
\<close>

record JobProgressMetrics =
  job_StartTime :: "Time option"
  job_EndTime :: "Time option"
  job_Errors :: "error list"

record JobProgressRef =
  SourceID :: int
  JobID :: int
  jobProgress :: JobProgressMetrics

definition Snapshot :: "JobProgressRef \<Rightarrow> JobProgressMetrics" where
  "Snapshot ref = jobProgress ref"

text \<open>
  Modelled from the spec: a chunk (declared outside the given sources) carries a
  payload of bytes; the hook only measures its length.
\<close>

record Chunk =
  Data :: "8 word list"

record UnitMetrics =
  Unit :: "SourceUnit option"
  Parent :: JobProgressRef
  StartTime :: "Time option"
  EndTime :: "Time option"
  TotalChunks :: "64 word"
  TotalBytes :: "64 word"
  Errors :: "error list"
  handled :: bool

definition IsFinished :: "UnitMetrics \<Rightarrow> bool" where
  "IsFinished u = (EndTime u \<noteq> None)"

text \<open>
  \<^verbatim>\<open>Time.Sub\<close> yields a 64-bit duration and saturates at its bounds.
  \<^verbatim>\<open>time.Since\<close> reads the clock, which is the parameter \<open>now\<close> here.
\<close>

definition time_Sub :: "Time \<Rightarrow> Time \<Rightarrow> int" where
  "time_Sub t u =
     (if t - u < - (2 ^ 63) then - (2 ^ 63)
      else if 2 ^ 63 - 1 < t - u then 2 ^ 63 - 1
      else t - u)"

definition ElapsedTime :: "Time \<Rightarrow> UnitMetrics \<Rightarrow> int" where
  "ElapsedTime now u =
     (case StartTime u of
        None \<Rightarrow> 0
      | Some start \<Rightarrow>
          (case EndTime u of
             None \<Rightarrow> time_Sub now start
           | Some end \<Rightarrow> time_Sub end start))"

section \<open>Key derivation\<close>

text \<open>\<^verbatim>\<open>fmt.Sprintf("%d", n)\<close>: decimal digits, with a minus sign for negatives.\<close>

definition digit_char :: "nat \<Rightarrow> char" where
  "digit_char n = ''0123456789'' ! n"

fun digits :: "nat \<Rightarrow> string" where
  "digits n = (if n < 10 then [digit_char n] else digits (n div 10) @ [digit_char (n mod 10)])"

declare digits.simps [simp del]

definition fmt_d :: "int \<Rightarrow> string" where
  "fmt_d i = (if i < 0 then CHR ''-'' # digits (nat (- i)) else digits (nat i))"

definition hook_id :: "JobProgressRef \<Rightarrow> SourceUnit option \<Rightarrow> string" where
  "hook_id ref unit =
     (let unitID = (case unit of None \<Rightarrow> [] | Some u \<Rightarrow> SourceUnitID u)
      in fmt_d (SourceID ref) @ ''/'' @ fmt_d (JobID ref) @ ''/'' @ unitID)"

definition HasPrefix :: "string \<Rightarrow> string \<Rightarrow> bool" where
  "HasPrefix s pre = prefix pre s"

section \<open>The bounded cache\<close>

text \<open>
  Modelled from the spec: the cache is the imported LRU package, which is not part
  of the given sources. It has a fixed capacity and keeps its entries in recency
  order; here the head of \<open>lru_items\<close> is the most recently used entry and the last
  element the oldest. Looking an entry up refreshes its recency, adding under a
  resident key replaces the value and refreshes the recency, adding under a new key
  beyond the capacity drops the oldest entry, and the keys are listed from the
  oldest to the newest. A cache is built with or without an eviction callback, and
  the callback is part of the cache: \<open>lru_onEvict\<close> maps the dropped key and value
  to the diagnostics the callback emits. Every operation that drops an entry, a
  removal included, hands the dropped key and value to the callback of the cache
  it drops from; the operations below return the dropped entries as a list, and
  \<open>lru_fire\<close> is what the cache's callback, if it has one, emits for them.
  The values are pointers in the source: \<open>lru_assign\<close> is a write through the
  pointer stored under a key and does not touch the order.
\<close>

record lru_Cache =
  lru_size :: nat
  lru_items :: "(string \<times> UnitMetrics) list"
  lru_onEvict :: "(string \<times> UnitMetrics \<Rightarrow> (string \<times> UnitMetrics) list) option"

definition lru_New :: "nat \<Rightarrow> lru_Cache" where
  "lru_New n = \<lparr>lru_size = n, lru_items = [], lru_onEvict = None\<rparr>"

definition lru_NewWithEvict ::
  "nat \<Rightarrow> (string \<times> UnitMetrics \<Rightarrow> (string \<times> UnitMetrics) list) \<Rightarrow> lru_Cache" where
  "lru_NewWithEvict n cb = \<lparr>lru_size = n, lru_items = [], lru_onEvict = Some cb\<rparr>"

definition lru_fire :: "lru_Cache \<Rightarrow> (string \<times> UnitMetrics) list \<Rightarrow> (string \<times> UnitMetrics) list" where
  "lru_fire c evicted = (case lru_onEvict c of None \<Rightarrow> [] | Some cb \<Rightarrow> concat (map cb evicted))"

definition lru_peek :: "string \<Rightarrow> lru_Cache \<Rightarrow> UnitMetrics option" where
  "lru_peek k c = map_of (lru_items c) k"

definition lru_without :: "string \<Rightarrow> (string \<times> UnitMetrics) list \<Rightarrow> (string \<times> UnitMetrics) list" where
  "lru_without k xs = filter (\<lambda>p. fst p \<noteq> k) xs"

definition lru_Get :: "string \<Rightarrow> lru_Cache \<Rightarrow> UnitMetrics option \<times> lru_Cache" where
  "lru_Get k c =
     (case map_of (lru_items c) k of
        None \<Rightarrow> (None, c)
      | Some v \<Rightarrow> (Some v, c\<lparr>lru_items := (k, v) # lru_without k (lru_items c)\<rparr>))"

definition lru_Add ::
  "string \<Rightarrow> UnitMetrics \<Rightarrow> lru_Cache \<Rightarrow> lru_Cache \<times> (string \<times> UnitMetrics) list" where
  "lru_Add k v c =
     (case map_of (lru_items c) k of
        Some old \<Rightarrow> (c\<lparr>lru_items := (k, v) # lru_without k (lru_items c)\<rparr>, [])
      | None \<Rightarrow>
          (let xs = (k, v) # lru_items c
           in if lru_size c < length xs
              then (c\<lparr>lru_items := butlast xs\<rparr>, [last xs])
              else (c\<lparr>lru_items := xs\<rparr>, [])))"

definition lru_Remove ::
  "string \<Rightarrow> lru_Cache \<Rightarrow> lru_Cache \<times> (string \<times> UnitMetrics) list" where
  "lru_Remove k c =
     (case map_of (lru_items c) k of
        None \<Rightarrow> (c, [])
      | Some v \<Rightarrow> (c\<lparr>lru_items := lru_without k (lru_items c)\<rparr>, [(k, v)]))"

definition lru_Keys :: "lru_Cache \<Rightarrow> string list" where
  "lru_Keys c = rev (map fst (lru_items c))"

definition lru_assign :: "string \<Rightarrow> UnitMetrics \<Rightarrow> lru_Cache \<Rightarrow> lru_Cache" where
  "lru_assign k v c =
     c\<lparr>lru_items := map (\<lambda>p. if fst p = k then (k, v) else p) (lru_items c)\<rparr>"

section \<open>The hook\<close>

text \<open>
  The hook owns the cache; \<open>logger\<close> collects what an eviction callback reports
  (the key and the dropped metric of each "dropping unit metric" error). The mutex
  makes every method atomic, so a method is a function from state to state.
  \<open>onEvict\<close> is the closure that \<^verbatim>\<open>NewUnitHook\<close> hands to the cache it builds with
  \<^verbatim>\<open>lru.NewWithEvict(1024, ...)\<close>. \<^verbatim>\<open>WithUnitHookCache\<close> replaces that cache by the
  given one, together with its callback: a hook given a cache built without
  callback reports nothing. \<open>callback\<close> appends to the logger what the callback of
  the hook's current cache emits. The chunk passed to \<^verbatim>\<open>ReportChunk\<close> is not nil.
\<close>

record UnitHook =
  metrics :: lru_Cache
  logger :: "(string \<times> UnitMetrics) list"

definition onEvict :: "string \<times> UnitMetrics \<Rightarrow> (string \<times> UnitMetrics) list" where
  "onEvict kv = (if handled (snd kv) then [] else [kv])"

definition callback :: "(string \<times> UnitMetrics) list \<Rightarrow> UnitHook \<Rightarrow> UnitHook" where
  "callback evicted u = u\<lparr>logger := logger u @ lru_fire (metrics u) evicted\<rparr>"

type_synonym UnitHookOpt = "UnitHook \<Rightarrow> UnitHook"

definition WithUnitHookCache :: "lru_Cache \<Rightarrow> UnitHookOpt" where
  "WithUnitHookCache cache = (\<lambda>hook. hook\<lparr>metrics := cache\<rparr>)"

definition NewUnitHook :: "UnitHookOpt list \<Rightarrow> UnitHook" where
  "NewUnitHook opts = fold (\<lambda>opt hook. opt hook) opts
     \<lparr>metrics = lru_NewWithEvict 1024 onEvict, logger = []\<rparr>"

definition StartUnitChunking ::
  "JobProgressRef \<Rightarrow> SourceUnit option \<Rightarrow> Time \<Rightarrow> UnitHook \<Rightarrow> UnitHook" where
  "StartUnitChunking ref unit start u =
     (let key = hook_id ref unit;
          (c, evicted) = lru_Add key
             \<lparr>Unit = unit, Parent = ref, StartTime = Some start, EndTime = None,
              TotalChunks = 0, TotalBytes = 0, Errors = [], handled = False\<rparr> (metrics u)
      in callback evicted (u\<lparr>metrics := c\<rparr>))"

definition EndUnitChunking ::
  "JobProgressRef \<Rightarrow> SourceUnit option \<Rightarrow> Time \<Rightarrow> UnitHook \<Rightarrow> UnitHook" where
  "EndUnitChunking ref unit end u =
     (let key = hook_id ref unit
      in case lru_Get key (metrics u) of
           (None, c) \<Rightarrow> u
         | (Some m, c) \<Rightarrow> u\<lparr>metrics := lru_assign key (m\<lparr>EndTime := Some end\<rparr>) c\<rparr>)"

definition count_chunk :: "string \<Rightarrow> UnitMetrics \<Rightarrow> Chunk \<Rightarrow> lru_Cache \<Rightarrow> lru_Cache" where
  "count_chunk key m chunk c =
     lru_assign key
       (m\<lparr>TotalChunks := TotalChunks m + 1,
          TotalBytes := TotalBytes m + word_of_nat (length (Data chunk))\<rparr>) c"

definition ReportChunk ::
  "JobProgressRef \<Rightarrow> SourceUnit option \<Rightarrow> Chunk \<Rightarrow> UnitHook \<Rightarrow> UnitHook" where
  "ReportChunk ref unit chunk u =
     (let key = hook_id ref unit
      in case lru_Get key (metrics u) of
           (Some m, c) \<Rightarrow> u\<lparr>metrics := count_chunk key m chunk c\<rparr>
         | (None, c) \<Rightarrow>
             (if unit \<noteq> None then u
              else
                (let m = \<lparr>Unit = None, Parent = ref,
                          StartTime = job_StartTime (Snapshot ref), EndTime = None,
                          TotalChunks = 0, TotalBytes = 0, Errors = [], handled = False\<rparr>;
                     (c', evicted) = lru_Add key m c;
                     u' = callback evicted (u\<lparr>metrics := c'\<rparr>)
                 in u'\<lparr>metrics := count_chunk key m chunk (metrics u')\<rparr>)))"

definition append_error :: "string \<Rightarrow> error \<Rightarrow> lru_Cache \<Rightarrow> lru_Cache" where
  "append_error key err c =
     (case lru_Get key c of
        (None, c') \<Rightarrow> c
      | (Some m, c') \<Rightarrow> lru_assign key (m\<lparr>Errors := Errors m @ [err]\<rparr>) c')"

definition ReportError :: "JobProgressRef \<Rightarrow> error \<Rightarrow> UnitHook \<Rightarrow> UnitHook" where
  "ReportError ref err u =
     (let c = append_error (hook_id ref None) err (metrics u)
      in case errors_As err of
           None \<Rightarrow> u\<lparr>metrics := c\<rparr>
         | Some chunkErr_Unit \<Rightarrow> u\<lparr>metrics := append_error (hook_id ref chunkErr_Unit) err c\<rparr>)"

fun Finish_loop :: "JobProgressRef \<Rightarrow> string list \<Rightarrow> lru_Cache \<Rightarrow> lru_Cache" where
  "Finish_loop ref [] c = c"
| "Finish_loop ref (key # keys) c =
     (if \<not> HasPrefix key (hook_id ref None) then Finish_loop ref keys c
      else case lru_Get key c of
             (None, c') \<Rightarrow> Finish_loop ref keys c
           | (Some metric, c') \<Rightarrow>
               (if Unit metric = None
                then (let snap = Snapshot ref
                      in Finish_loop ref keys
                           (lru_assign key
                              (metric\<lparr>StartTime := job_StartTime snap,
                                      EndTime := job_EndTime snap,
                                      Errors := job_Errors snap\<rparr>) c'))
                else Finish_loop ref keys c'))"

definition Finish :: "JobProgressRef \<Rightarrow> UnitHook \<Rightarrow> UnitHook" where
  "Finish ref u = u\<lparr>metrics := Finish_loop ref (lru_Keys (metrics u)) (metrics u)\<rparr>"

fun UnitMetrics_loop ::
  "string list \<Rightarrow> UnitMetrics list \<Rightarrow> UnitHook \<Rightarrow> UnitMetrics list \<times> UnitHook" where
  "UnitMetrics_loop [] output u = (output, u)"
| "UnitMetrics_loop (key # keys) output u =
     (case lru_Get key (metrics u) of
        (None, c) \<Rightarrow> UnitMetrics_loop keys output u
      | (Some metric, c) \<Rightarrow>
          (if IsFinished metric
           then (let (c', evicted) = lru_Remove key (lru_assign key (metric\<lparr>handled := True\<rparr>) c)
                 in UnitMetrics_loop keys (output @ [metric]) (callback evicted (u\<lparr>metrics := c'\<rparr>)))
           else UnitMetrics_loop keys (output @ [metric]) (u\<lparr>metrics := c\<rparr>)))"

definition UnitMetrics_call :: "UnitHook \<Rightarrow> UnitMetrics list \<times> UnitHook" where
  "UnitMetrics_call u = UnitMetrics_loop (lru_Keys (metrics u)) [] u"

section \<open>Operation sequences, invariants and proof auxiliaries\<close>

text \<open>A call of one of the hook's methods; \<open>step\<close> performs it and \<open>run\<close> a sequence of them.\<close>

datatype op =
    OpStart JobProgressRef "SourceUnit option" Time
  | OpEnd JobProgressRef "SourceUnit option" Time
  | OpChunk JobProgressRef "SourceUnit option" Chunk
  | OpError JobProgressRef error
  | OpFinish JobProgressRef
  | OpUnitMetrics

fun step :: "op \<Rightarrow> UnitHook \<Rightarrow> UnitHook" where
  "step (OpStart ref unit start) u = StartUnitChunking ref unit start u"
| "step (OpEnd ref unit end) u = EndUnitChunking ref unit end u"
| "step (OpChunk ref unit chunk) u = ReportChunk ref unit chunk u"
| "step (OpError ref err) u = ReportError ref err u"
| "step (OpFinish ref) u = Finish ref u"
| "step OpUnitMetrics u = snd (UnitMetrics_call u)"

fun run :: "op list \<Rightarrow> UnitHook \<Rightarrow> UnitHook" where
  "run [] u = u"
| "run (x # xs) u = run xs (step x u)"

text \<open>The entry resident under a key, without touching the recency order.\<close>

definition peek :: "string \<Rightarrow> UnitHook \<Rightarrow> UnitMetrics option" where
  "peek k u = lru_peek k (metrics u)"

text \<open>The key a returned record belongs to.\<close>

definition key_of :: "UnitMetrics \<Rightarrow> string" where
  "key_of m = hook_id (Parent m) (Unit m)"

text \<open>
  What the cache package guarantees of itself: a positive capacity that is never
  exceeded, and one entry per key.
\<close>

definition cache_ok :: "lru_Cache \<Rightarrow> bool" where
  "cache_ok c =
     (0 < lru_size c \<and> length (lru_items c) \<le> lru_size c \<and> distinct (map fst (lru_items c)))"

text \<open>
  The invariant of the hook: the cache is well formed, every entry sits under the
  key of its own job and unit, and no resident entry is marked handled.
\<close>

definition entry_ok :: "string \<times> UnitMetrics \<Rightarrow> bool" where
  "entry_ok p = (fst p = key_of (snd p) \<and> \<not> handled (snd p))"

definition hook_inv :: "UnitHook \<Rightarrow> bool" where
  "hook_inv u = (cache_ok (metrics u) \<and> list_all entry_ok (lru_items (metrics u)))"

text \<open>The unit identifier that enters the key: empty for a nil unit.\<close>

definition unitID_of :: "SourceUnit option \<Rightarrow> string" where
  "unitID_of unit = (case unit of None \<Rightarrow> [] | Some u \<Rightarrow> SourceUnitID u)"

text \<open>Reading a decimal numeral back, to show that formatting loses nothing.\<close>

definition digit_val :: "char \<Rightarrow> nat" where
  "digit_val c = of_char c - 48"

definition undigits :: "string \<Rightarrow> nat" where
  "undigits s = foldl (\<lambda>acc c. 10 * acc + digit_val c) 0 s"

text \<open>
  Pieces of the methods, named for the proofs: the entry a method creates, the
  effect of one chunk on an entry, what \<^verbatim>\<open>Finish\<close> does to an entry, the state
  after the drain read has marked a finished entry handled and removed it, and the
  source's recurring pattern of fetching an entry (which refreshes its recency)
  and then writing through the pointer.
\<close>

definition fresh_entry :: "JobProgressRef \<Rightarrow> SourceUnit option \<Rightarrow> Time option \<Rightarrow> UnitMetrics" where
  "fresh_entry ref unit start =
     \<lparr>Unit = unit, Parent = ref, StartTime = start, EndTime = None,
      TotalChunks = 0, TotalBytes = 0, Errors = [], handled = False\<rparr>"

definition count_entry :: "Chunk \<Rightarrow> UnitMetrics \<Rightarrow> UnitMetrics" where
  "count_entry chunk m =
     m\<lparr>TotalChunks := TotalChunks m + 1,
       TotalBytes := TotalBytes m + word_of_nat (length (Data chunk))\<rparr>"

definition finish_entry :: "JobProgressRef \<Rightarrow> UnitMetrics \<Rightarrow> UnitMetrics" where
  "finish_entry ref m =
     (if Unit m = None
      then m\<lparr>StartTime := job_StartTime (Snapshot ref),
             EndTime := job_EndTime (Snapshot ref),
             Errors := job_Errors (Snapshot ref)\<rparr>
      else m)"

definition drained :: "string \<Rightarrow> UnitMetrics \<Rightarrow> UnitHook \<Rightarrow> UnitHook" where
  "drained key m u =
     callback [(key, m\<lparr>handled := True\<rparr>)]
       (u\<lparr>metrics := fst (lru_Remove key
            (lru_assign key (m\<lparr>handled := True\<rparr>) (snd (lru_Get key (metrics u)))))\<rparr>)"

definition touch_update :: "string \<Rightarrow> (UnitMetrics \<Rightarrow> UnitMetrics) \<Rightarrow> lru_Cache \<Rightarrow> lru_Cache" where
  "touch_update key f c =
     (case lru_Get key c of
        (None, c') \<Rightarrow> c
      | (Some m, c') \<Rightarrow> lru_assign key (f m) c')"

text \<open>
  Classifying calls with respect to a key \<open>k\<close>: a call that reports a chunk for \<open>k\<close>;
  the chunks a sequence reports for \<open>k\<close>; a call that addresses the entry under \<open>k\<close>
  at all; a call that can create an entry under \<open>k\<close>; a call that starts \<open>k\<close>
  (again); a start of \<open>k\<close> that names a unit; a \<^verbatim>\<open>Finish\<close> that replaces the end
  time of entry \<open>m\<close> by an unset one. \<open>resident_through k xs u\<close> says that the entry
  under \<open>k\<close> is resident before each call of \<open>xs\<close> and after the last one.
\<close>

fun own_chunk :: "string \<Rightarrow> op \<Rightarrow> Chunk option" where
  "own_chunk k (OpChunk ref unit chunk) = (if hook_id ref unit = k then Some chunk else None)"
| "own_chunk k x = None"

definition chunks_for :: "string \<Rightarrow> op list \<Rightarrow> Chunk list" where
  "chunks_for k xs = List.map_filter (own_chunk k) xs"

definition payload :: "Chunk list \<Rightarrow> nat" where
  "payload cs = sum_list (map (\<lambda>c. length (Data c)) cs)"

fun touches :: "string \<Rightarrow> op \<Rightarrow> bool" where
  "touches k (OpStart ref unit start) = (hook_id ref unit = k)"
| "touches k (OpEnd ref unit end) = (hook_id ref unit = k)"
| "touches k (OpChunk ref unit chunk) = (hook_id ref unit = k)"
| "touches k (OpError ref err) =
     (hook_id ref None = k \<or>
      (case errors_As err of None \<Rightarrow> False | Some unit \<Rightarrow> hook_id ref unit = k))"
| "touches k (OpFinish ref) = HasPrefix k (hook_id ref None)"
| "touches k OpUnitMetrics = False"

fun creates :: "string \<Rightarrow> op \<Rightarrow> bool" where
  "creates k (OpStart ref unit start) = (hook_id ref unit = k)"
| "creates k (OpChunk ref unit chunk) = (hook_id ref unit = k \<and> unit = None)"
| "creates k x = False"

fun restarts :: "string \<Rightarrow> op \<Rightarrow> bool" where
  "restarts k (OpStart ref unit start) = (hook_id ref unit = k)"
| "restarts k x = False"

fun names_unit :: "string \<Rightarrow> op \<Rightarrow> bool" where
  "names_unit k (OpStart ref unit start) = (hook_id ref unit = k \<and> unit \<noteq> None)"
| "names_unit k x = False"

fun finish_clears :: "UnitMetrics \<Rightarrow> op \<Rightarrow> bool" where
  "finish_clears m (OpFinish ref) =
     (HasPrefix (key_of m) (hook_id ref None) \<and> Unit m = None \<and> job_EndTime (Snapshot ref) = None)"
| "finish_clears m x = False"

fun resident_through :: "string \<Rightarrow> op list \<Rightarrow> UnitHook \<Rightarrow> bool" where
  "resident_through k [] u = (peek k u \<noteq> None)"
| "resident_through k (x # xs) u = (peek k u \<noteq> None \<and> resident_through k xs (step x u))"

text \<open>
  Appending one error to an entry; a call that assigns the end time of the entry
  under \<open>k\<close> (an \<^verbatim>\<open>EndUnitChunking\<close> for \<open>k\<close>, or a \<^verbatim>\<open>Finish\<close> whose prefix matches \<open>k\<close>).
\<close>

definition add_error :: "error \<Rightarrow> UnitMetrics \<Rightarrow> UnitMetrics" where
  "add_error err m = m\<lparr>Errors := Errors m @ [err]\<rparr>"

fun ends :: "string \<Rightarrow> op \<Rightarrow> bool" where
  "ends k (OpEnd ref unit end) = (hook_id ref unit = k)"
| "ends k (OpFinish ref) = HasPrefix k (hook_id ref None)"
| "ends k x = False"

text \<open>Concrete inputs, used to exercise the theorems below.\<close>

definition job1 :: JobProgressRef where
  "job1 = \<lparr>SourceID = 1, JobID = 2,
            jobProgress = \<lparr>job_StartTime = Some 5, job_EndTime = Some 90, job_Errors = [PlainError ''e0'']\<rparr>\<rparr>"

definition unit1 :: "SourceUnit option" where
  "unit1 = Some (SourceUnit ''u1'')"

definition unit2 :: "SourceUnit option" where
  "unit2 = Some (SourceUnit ''u2'')"

definition empty_unit :: "SourceUnit option" where
  "empty_unit = Some (SourceUnit [])"

definition chunk100 :: Chunk where
  "chunk100 = \<lparr>Data = replicate 100 0\<rparr>"

definition chunk50 :: Chunk where
  "chunk50 = \<lparr>Data = replicate 50 0\<rparr>"

definition boom :: error where
  "boom = PlainError ''boom''"

definition job_open :: JobProgressRef where
  "job_open = \<lparr>SourceID = 3, JobID = 4,
            jobProgress = \<lparr>job_StartTime = Some 1, job_EndTime = None, job_Errors = []\<rparr>\<rparr>"






definition hook2 :: UnitHook where
  "hook2 = NewUnitHook [WithUnitHookCache (lru_New 2)]"

section \<open>Properties of the key derivation\<close>

lemma digit_char_mem: "n < 10 \<Longrightarrow> digit_char n \<in> set ''0123456789''"
  unfolding digit_char_def by (rule nth_mem) simp

lemma digit_val_char: 
  assumes "n < 10" shows "digit_val (digit_char n) = n"
proof -
  from assms have "n \<in> {0,1,2,3,4,5,6,7,8,9}" by auto
  then show ?thesis by (auto simp: digit_val_def digit_char_def)
qed

lemma digits_chars: "set (digits n) \<subseteq> set ''0123456789''"
proof (induction n rule: digits.induct)
  case (1 n)
  show ?case
  proof (cases "n < 10")
    case True
    then show ?thesis using digit_char_mem [of n] by (subst digits.simps) simp
  next
    case False
    then have "set (digits (n div 10)) \<subseteq> set ''0123456789''" using 1 by simp
    moreover have "digit_char (n mod 10) \<in> set ''0123456789''" by (rule digit_char_mem) simp
    ultimately show ?thesis using False by (subst digits.simps) simp
  qed
qed

lemma digits_not_Nil: "digits n \<noteq> []"
  by (subst digits.simps) simp

lemma undigits_digits: "undigits (digits n) = n"
proof (induction n rule: digits.induct)
  case (1 n)
  show ?case
  proof (cases "n < 10")
    case True
    then show ?thesis by (subst digits.simps) (simp add: undigits_def digit_val_char)
  next
    case False
    then have "undigits (digits (n div 10)) = n div 10" using 1 by simp
    then show ?thesis using False
      by (subst digits.simps) (simp add: undigits_def digit_val_char)
  qed
qed

lemma digits_inj: "digits m = digits n \<Longrightarrow> m = n"
  by (metis undigits_digits)

lemma slash_notin_digits: "CHR ''/'' \<notin> set (digits n)"
  using digits_chars [of n] by auto

lemma minus_notin_digits: "CHR ''-'' \<notin> set (digits n)"
  using digits_chars [of n] by auto

lemma slash_notin_fmt_d: "CHR ''/'' \<notin> set (fmt_d i)"
  by (simp add: fmt_d_def slash_notin_digits)

lemma fmt_d_inj: 
  assumes "fmt_d i = fmt_d j" shows "i = j"
proof -
  have neg: "CHR ''-'' # digits a \<noteq> digits b" for a b
    using minus_notin_digits [of b] by (metis list.set_intros(1))
  show ?thesis
  proof (cases "i < 0")
    case True
    note i = this
    show ?thesis
    proof (cases "j < 0")
      case True
      with i assms have "digits (nat (- i)) = digits (nat (- j))" by (simp add: fmt_d_def)
      then have "nat (- i) = nat (- j)" by (rule digits_inj)
      with i True show ?thesis by simp
    next
      case False
      with i assms neg show ?thesis by (simp add: fmt_d_def)
    qed
  next
    case False
    note i = this
    show ?thesis
    proof (cases "j < 0")
      case True
      with i assms neg [of "nat (- j)" "nat i"] show ?thesis by (simp add: fmt_d_def)
    next
      case False
      with i assms have "digits (nat i) = digits (nat j)" by (simp add: fmt_d_def)
      then have "nat i = nat j" by (rule digits_inj)
      with i False show ?thesis by simp
    qed
  qed
qed

lemma prefix_field:
  assumes "sep \<notin> set a" "sep \<notin> set b" "prefix (a @ sep # x) (b @ sep # y)"
  shows "a = b \<and> prefix x y"
  using assms
proof (induction a arbitrary: b)
  case Nil
  then show ?case by (cases b) auto
next
  case (Cons c a)
  then show ?case by (cases b) auto
qed

lemma hook_id_unfold:
  "hook_id ref unit = fmt_d (SourceID ref) @ CHR ''/'' # fmt_d (JobID ref) @ CHR ''/'' # unitID_of unit"
  by (simp add: hook_id_def unitID_of_def)

lemma hook_id_prefix_iff:
  "prefix (hook_id r1 None) (hook_id r2 unit) \<longleftrightarrow> SourceID r1 = SourceID r2 \<and> JobID r1 = JobID r2"
proof
  assume "prefix (hook_id r1 None) (hook_id r2 unit)"
  then have p: "prefix (fmt_d (SourceID r1) @ CHR ''/'' # fmt_d (JobID r1) @ CHR ''/'' # [])
     (fmt_d (SourceID r2) @ CHR ''/'' # fmt_d (JobID r2) @ CHR ''/'' # unitID_of unit)"
    by (simp add: hook_id_unfold unitID_of_def)
  from prefix_field [OF slash_notin_fmt_d slash_notin_fmt_d p]
  have s: "fmt_d (SourceID r1) = fmt_d (SourceID r2)"
    and q: "prefix (fmt_d (JobID r1) @ CHR ''/'' # []) (fmt_d (JobID r2) @ CHR ''/'' # unitID_of unit)"
    by simp_all
  from prefix_field [OF slash_notin_fmt_d slash_notin_fmt_d q]
  have j: "fmt_d (JobID r1) = fmt_d (JobID r2)" by simp
  from s j show "SourceID r1 = SourceID r2 \<and> JobID r1 = JobID r2"
    by (simp add: fmt_d_inj)
next
  assume "SourceID r1 = SourceID r2 \<and> JobID r1 = JobID r2"
  then show "prefix (hook_id r1 None) (hook_id r2 unit)"
    by (simp add: hook_id_unfold unitID_of_def)
qed

lemma hook_id_eq_iff:
  "hook_id r1 u1 = hook_id r2 u2 \<longleftrightarrow>
     SourceID r1 = SourceID r2 \<and> JobID r1 = JobID r2 \<and> unitID_of u1 = unitID_of u2"
proof
  assume e: "hook_id r1 u1 = hook_id r2 u2"
  have "prefix (hook_id r1 None) (hook_id r1 u1)" by (simp add: hook_id_prefix_iff)
  with e have "prefix (hook_id r1 None) (hook_id r2 u2)" by simp
  then have sj: "SourceID r1 = SourceID r2 \<and> JobID r1 = JobID r2" by (simp add: hook_id_prefix_iff)
  with e have "unitID_of u1 = unitID_of u2" by (simp add: hook_id_unfold)
  with sj show "SourceID r1 = SourceID r2 \<and> JobID r1 = JobID r2 \<and> unitID_of u1 = unitID_of u2" by simp
next
  assume "SourceID r1 = SourceID r2 \<and> JobID r1 = JobID r2 \<and> unitID_of u1 = unitID_of u2"
  then show "hook_id r1 u1 = hook_id r2 u2" by (simp add: hook_id_unfold)
qed

section \<open>Properties of the cache\<close>

subsection \<open>Association lists\<close>

lemma map_of_without: "map_of (lru_without k xs) k' = (if k' = k then None else map_of xs k')"
  by (induction xs) (auto simp: lru_without_def)

lemma set_without: "set (lru_without k xs) \<subseteq> set xs"
  by (auto simp: lru_without_def)

lemma distinct_without: "distinct (map fst xs) \<Longrightarrow> distinct (map fst (lru_without k xs))"
  by (simp add: lru_without_def distinct_map_filter)

lemma key_notin_without: "k \<notin> fst ` set (lru_without k xs)"
  by (auto simp: lru_without_def)

lemma without_absent: "k \<notin> fst ` set xs \<Longrightarrow> lru_without k xs = xs"
  by (induction xs) (auto simp: lru_without_def)

lemma without_append: "lru_without k (xs @ ys) = lru_without k xs @ lru_without k ys"
  by (simp add: lru_without_def)

lemma without_Cons: "lru_without k (p # xs) = (if fst p = k then lru_without k xs else p # lru_without k xs)"
  by (simp add: lru_without_def)

lemma length_without:
  "distinct (map fst xs) \<Longrightarrow> map_of xs k = Some v \<Longrightarrow> Suc (length (lru_without k xs)) = length xs"
proof (induction xs)
  case Nil
  then show ?case by simp
next
  case (Cons p xs)
  show ?case
  proof (cases "fst p = k")
    case True
    with Cons.prems have "k \<notin> fst ` set xs" by auto
    then have "lru_without k xs = xs" by (rule without_absent)
    with True show ?thesis by (simp add: without_Cons)
  next
    case False
    with Cons show ?thesis by (simp add: without_Cons)
  qed
qed

lemma length_without_le: "length (lru_without k xs) \<le> length xs"
  by (simp add: lru_without_def)

lemma map_of_butlast:
  "distinct (map fst xs) \<Longrightarrow>
   map_of (butlast xs) k = (if xs \<noteq> [] \<and> k = fst (last xs) then None else map_of xs k)"
proof (induction xs rule: rev_induct)
  case Nil
  then show ?case by simp
next
  case (snoc p xs)
  then have d: "distinct (map fst xs)" and n: "fst p \<notin> fst ` set xs" by auto
  show ?case
  proof (cases "k = fst p")
    case True
    with n have "map_of xs k = None" by (simp add: map_of_eq_None_iff)
    with True show ?thesis by simp
  next
    case False
    then show ?thesis by (cases p) (auto simp: map_add_def split: option.splits)
  qed
qed

lemma fst_map_assign: "map fst (map (\<lambda>p. if fst p = k then (k, v) else p) xs) = map fst xs"
  by (induction xs) auto

lemma map_of_assign:
  "map_of (map (\<lambda>p. if fst p = k then (k, v) else p) xs) k' =
     (if k' = k \<and> map_of xs k \<noteq> None then Some v else map_of xs k')"
  by (induction xs) auto

subsection \<open>The cache operations\<close>

lemma Get_fst: "fst (lru_Get k c) = lru_peek k c"
  by (simp add: lru_Get_def lru_peek_def split: option.splits)

lemma Get_peek: "lru_peek k' (snd (lru_Get k c)) = lru_peek k' c"
  by (auto simp: lru_Get_def lru_peek_def map_of_without split: option.splits)

lemma Get_size: "lru_size (snd (lru_Get k c)) = lru_size c"
  by (simp add: lru_Get_def split: option.splits)

lemma Get_None: "lru_peek k c = None \<Longrightarrow> lru_Get k c = (None, c)"
  by (simp add: lru_Get_def lru_peek_def)

lemma Get_Some:
  "lru_peek k c = Some v \<Longrightarrow>
   lru_Get k c = (Some v, c\<lparr>lru_items := (k, v) # lru_without k (lru_items c)\<rparr>)"
  by (simp add: lru_Get_def lru_peek_def)

lemma Get_ok: "cache_ok c \<Longrightarrow> cache_ok (snd (lru_Get k c))"
  using length_without [of "lru_items c" k]
  by (auto simp: lru_Get_def cache_ok_def distinct_without key_notin_without split: option.splits)

lemma entries_ok_iff:
  assumes "cache_ok c"
  shows "list_all entry_ok (lru_items c) \<longleftrightarrow> (\<forall>k v. lru_peek k c = Some v \<longrightarrow> entry_ok (k, v))"
proof -
  from assms have d: "distinct (map fst (lru_items c))" by (simp add: cache_ok_def)
  have "\<And>k v. (lru_peek k c = Some v) = ((k, v) \<in> set (lru_items c))"
    unfolding lru_peek_def by (rule map_of_eq_Some_iff [OF d])
  then show ?thesis by (auto simp: list_all_iff)
qed

lemma assign_peek:
  "lru_peek k' (lru_assign k v c) =
     (if k' = k \<and> lru_peek k c \<noteq> None then Some v else lru_peek k' c)"
  by (simp add: lru_assign_def lru_peek_def map_of_assign)

lemma assign_size: "lru_size (lru_assign k v c) = lru_size c"
  by (simp add: lru_assign_def)

lemma assign_keys: "map fst (lru_items (lru_assign k v c)) = map fst (lru_items c)"
  by (simp add: lru_assign_def fst_map_assign del: map_map)

lemma assign_ok: "cache_ok c \<Longrightarrow> cache_ok (lru_assign k v c)"
  using assign_keys [of k v c] by (simp add: cache_ok_def lru_assign_def del: map_map)

lemma assign_absent: "lru_peek k c = None \<Longrightarrow> lru_assign k v c = c"
proof -
  assume "lru_peek k c = None"
  then have "k \<notin> fst ` set (lru_items c)" by (simp add: lru_peek_def map_of_eq_None_iff)
  then have "map (\<lambda>p. if fst p = k then (k, v) else p) (lru_items c) = lru_items c"
    by (intro map_idI) auto
  then show ?thesis by (simp add: lru_assign_def)
qed

lemma Remove_peek:
  "lru_peek k' (fst (lru_Remove k c)) = (if k' = k then None else lru_peek k' c)"
  by (auto simp: lru_Remove_def lru_peek_def map_of_without split: option.splits)

lemma Remove_snd:
  "snd (lru_Remove k c) = (case lru_peek k c of None \<Rightarrow> [] | Some v \<Rightarrow> [(k, v)])"
  by (simp add: lru_Remove_def lru_peek_def split: option.splits)

lemma Remove_size: "lru_size (fst (lru_Remove k c)) = lru_size c"
  by (simp add: lru_Remove_def split: option.splits)

lemma Remove_ok: "cache_ok c \<Longrightarrow> cache_ok (fst (lru_Remove k c))"
  using length_without_le [of k "lru_items c"]
  by (auto simp: lru_Remove_def cache_ok_def distinct_without split: option.splits)

lemma Add_size: "lru_size (fst (lru_Add k v c)) = lru_size c"
  by (simp add: lru_Add_def Let_def split: option.splits)


lemma Add_ok: 
  assumes "cache_ok c" shows "cache_ok (fst (lru_Add k v c))"
proof (cases "map_of (lru_items c) k")
  case None
  then have "k \<notin> fst ` set (lru_items c)" by (simp add: map_of_eq_None_iff)
  moreover have "distinct (butlast (map fst (lru_items c)))"
    using assms by (simp add: cache_ok_def distinct_butlast)
  moreover have "k \<notin> set (butlast (map fst (lru_items c)))"
    using calculation(1) by (auto dest: in_set_butlastD)
  ultimately show ?thesis using assms None
    by (auto simp: lru_Add_def cache_ok_def Let_def map_butlast)
next
  case (Some old)
  then show ?thesis using assms length_without [of "lru_items c" k old]
    by (auto simp: lru_Add_def cache_ok_def distinct_without key_notin_without)
qed

lemma Add_peek_same:
  assumes "cache_ok c" shows "lru_peek k (fst (lru_Add k v c)) = Some v"
proof (cases "map_of (lru_items c) k")
  case None
  have "lru_items c \<noteq> [] \<Longrightarrow> butlast ((k, v) # lru_items c) = (k, v) # butlast (lru_items c)"
    by simp
  moreover have "lru_items c = [] \<Longrightarrow> \<not> lru_size c < Suc (length (lru_items c))"
    using assms by (simp add: cache_ok_def)
  ultimately show ?thesis using None
    by (cases "lru_items c = []") (auto simp: lru_Add_def lru_peek_def Let_def)
next
  case (Some old)
  then show ?thesis by (simp add: lru_Add_def lru_peek_def)
qed

lemma Add_peek_other:
  assumes "cache_ok c" "k' \<noteq> k"
  shows "lru_peek k' (fst (lru_Add k v c)) =
           (if k' \<in> fst ` set (snd (lru_Add k v c)) then None else lru_peek k' c)"
proof (cases "map_of (lru_items c) k")
  case None
  from assms have d: "distinct (map fst (lru_items c))" by (simp add: cache_ok_def)
  show ?thesis
  proof (cases "lru_items c = []")
    case True
    with None assms show ?thesis by (auto simp: lru_Add_def lru_peek_def Let_def)
  next
    case False
    then have b: "butlast ((k, v) # lru_items c) = (k, v) # butlast (lru_items c)" by simp
    from False None assms(2) show ?thesis
      by (auto simp: lru_Add_def lru_peek_def Let_def map_of_butlast [OF d])
  qed
next
  case (Some old)
  with assms show ?thesis by (simp add: lru_Add_def lru_peek_def map_of_without)
qed

subsection \<open>The callback stays with the cache\<close>

lemma Get_cb: "lru_onEvict (snd (lru_Get k c)) = lru_onEvict c"
  by (simp add: lru_Get_def split: option.splits)

lemma assign_cb: "lru_onEvict (lru_assign k v c) = lru_onEvict c"
  by (simp add: lru_assign_def)

lemma Remove_cb: "lru_onEvict (fst (lru_Remove k c)) = lru_onEvict c"
  by (simp add: lru_Remove_def split: option.splits)

lemma Add_cb: "lru_onEvict (fst (lru_Add k v c)) = lru_onEvict c"
  by (simp add: lru_Add_def Let_def split: option.splits)

lemma fire_same: "lru_onEvict c' = lru_onEvict c \<Longrightarrow> lru_fire c' evicted = lru_fire c evicted"
  by (simp add: lru_fire_def)

lemma fire_Nil [simp]: "lru_fire c [] = []"
  by (simp add: lru_fire_def split: option.splits)

lemma fire_none: "lru_onEvict c = None \<Longrightarrow> lru_fire c evicted = []"
  by (simp add: lru_fire_def)

lemma fire_default:
  "lru_onEvict c = Some onEvict \<Longrightarrow>
   lru_fire c [(k, m)] = (if handled m then [] else [(k, m)])"
  by (simp add: lru_fire_def onEvict_def)

section \<open>The methods of the hook\<close>

subsection \<open>Fetching and updating an entry\<close>

lemma Get_pair: "lru_Get k c = (lru_peek k c, snd (lru_Get k c))"
  by (metis Get_fst prod.collapse)

lemma touch_update_absent: "lru_peek key c = None \<Longrightarrow> touch_update key f c = c"
  by (simp add: touch_update_def Get_None)

lemma touch_update_present:
  "lru_peek key c = Some m \<Longrightarrow>
   touch_update key f c = lru_assign key (f m) (snd (lru_Get key c))"
  by (simp add: touch_update_def Get_Some)

lemma touch_update_peek:
  "lru_peek k' (touch_update key f c) =
     (if k' = key then map_option f (lru_peek key c) else lru_peek k' c)"
proof (cases "lru_peek key c")
  case None
  then show ?thesis by (simp add: touch_update_absent)
next
  case (Some m)
  then show ?thesis by (simp add: touch_update_present assign_peek Get_peek)
qed

lemma touch_update_size: "lru_size (touch_update key f c) = lru_size c"
  by (cases "lru_peek key c") (simp_all add: touch_update_absent touch_update_present assign_size Get_size)

lemma touch_update_cb: "lru_onEvict (touch_update key f c) = lru_onEvict c"
  by (cases "lru_peek key c")
    (simp_all add: touch_update_absent touch_update_present assign_cb Get_cb)

lemma touch_update_ok: "cache_ok c \<Longrightarrow> cache_ok (touch_update key f c)"
  by (cases "lru_peek key c") (simp_all add: touch_update_absent touch_update_present assign_ok Get_ok)

lemma touch_update_items:
  assumes "lru_peek key c = Some m"
  shows "lru_items (touch_update key f c) = (key, f m) # lru_without key (lru_items c)"
proof -
  have "map (\<lambda>p. if fst p = key then (key, f m) else p) (lru_without key (lru_items c))
          = lru_without key (lru_items c)"
    by (intro map_idI) (auto simp: lru_without_def)
  then show ?thesis using assms
    by (simp add: touch_update_present Get_Some lru_assign_def)
qed

lemma touch_update_id:
  assumes "lru_peek key c = Some m"
  shows "touch_update key (\<lambda>m. m) c = snd (lru_Get key c)"
proof -
  have "lru_items (touch_update key (\<lambda>m. m) c) = (key, m) # lru_without key (lru_items c)"
    using assms by (rule touch_update_items)
  moreover have "lru_size (touch_update key (\<lambda>m. m) c) = lru_size c" by (rule touch_update_size)
  moreover have "lru_onEvict (touch_update key (\<lambda>m. m) c) = lru_onEvict c"
    by (rule touch_update_cb)
  ultimately show ?thesis using assms by (simp add: Get_Some lru_Cache.equality)
qed

subsection \<open>The invariant, read through lookups\<close>

lemma hook_inv_iff:
  "hook_inv u \<longleftrightarrow>
     cache_ok (metrics u) \<and> (\<forall>k v. peek k u = Some v \<longrightarrow> k = key_of v \<and> \<not> handled v)"
  using entries_ok_iff [of "metrics u"] by (auto simp: hook_inv_def peek_def entry_ok_def)

lemma hook_inv_entry: "hook_inv u \<Longrightarrow> peek k u = Some v \<Longrightarrow> key_of v = k \<and> \<not> handled v"
  by (auto simp: hook_inv_iff)

lemma hook_inv_ok: "hook_inv u \<Longrightarrow> cache_ok (metrics u)"
  by (simp add: hook_inv_def)

lemma key_of_fresh [simp]: "key_of (fresh_entry ref unit start) = hook_id ref unit"
  by (simp add: key_of_def fresh_entry_def)

lemma key_of_count [simp]: "key_of (count_entry chunk m) = key_of m"
  by (simp add: key_of_def count_entry_def)

lemma key_of_finish [simp]: "key_of (finish_entry ref m) = key_of m"
  by (simp add: key_of_def finish_entry_def)

lemma handled_fresh [simp]: "\<not> handled (fresh_entry ref unit start)"
  by (simp add: fresh_entry_def)

lemma handled_count [simp]: "handled (count_entry chunk m) = handled m"
  by (simp add: count_entry_def)

lemma handled_finish [simp]: "handled (finish_entry ref m) = handled m"
  by (simp add: finish_entry_def)

lemma key_of_upd [simp]:
  "key_of (m\<lparr>EndTime := e\<rparr>) = key_of m"
  "key_of (m\<lparr>Errors := es\<rparr>) = key_of m"
  by (simp_all add: key_of_def)

subsection \<open>The methods as cache updates\<close>

lemma metrics_callback [simp]: "metrics (callback evicted u) = metrics u"
  by (simp add: callback_def)

lemma logger_callback: "logger (callback evicted u) = logger u @ lru_fire (metrics u) evicted"
  by (simp add: callback_def)

lemma peek_callback [simp]: "peek k (callback evicted u) = peek k u"
  by (simp add: peek_def)

lemma Start_metrics:
  "metrics (StartUnitChunking ref unit start u) =
     fst (lru_Add (hook_id ref unit) (fresh_entry ref unit (Some start)) (metrics u))"
  by (simp add: StartUnitChunking_def callback_def fresh_entry_def Let_def split: prod.splits)

lemma Start_logger:
  "logger (StartUnitChunking ref unit start u) =
     logger u @ lru_fire (metrics u)
        (snd (lru_Add (hook_id ref unit) (fresh_entry ref unit (Some start)) (metrics u)))"
proof -
  let ?a = "lru_Add (hook_id ref unit) (fresh_entry ref unit (Some start)) (metrics u)"
  have "logger (StartUnitChunking ref unit start u) = logger u @ lru_fire (fst ?a) (snd ?a)"
    by (simp add: StartUnitChunking_def callback_def fresh_entry_def Let_def split: prod.splits)
  then show ?thesis by (simp add: fire_same [OF Add_cb])
qed

lemma End_metrics:
  "metrics (EndUnitChunking ref unit end u) =
     touch_update (hook_id ref unit) (\<lambda>m. m\<lparr>EndTime := Some end\<rparr>) (metrics u)"
  by (simp add: EndUnitChunking_def touch_update_def Let_def split: prod.splits option.splits)

lemma End_logger: "logger (EndUnitChunking ref unit end u) = logger u"
  by (simp add: EndUnitChunking_def Let_def split: prod.splits option.splits)

lemma Chunk_present:
  assumes "peek (hook_id ref unit) u = Some m"
  shows "ReportChunk ref unit chunk u =
           u\<lparr>metrics := touch_update (hook_id ref unit) (count_entry chunk) (metrics u)\<rparr>"
  using assms
  by (simp add: ReportChunk_def touch_update_def count_chunk_def count_entry_def peek_def
        Get_Some Let_def)

lemma Chunk_evicted:
  assumes "peek (hook_id ref unit) u = None" "unit \<noteq> None"
  shows "ReportChunk ref unit chunk u = u"
  using assms by (simp add: ReportChunk_def peek_def Get_None Let_def)

lemma Chunk_create_metrics:
  assumes "peek (hook_id ref None) u = None"
  shows "metrics (ReportChunk ref None chunk u) =
           lru_assign (hook_id ref None)
             (count_entry chunk (fresh_entry ref None (job_StartTime (Snapshot ref))))
             (fst (lru_Add (hook_id ref None)
                (fresh_entry ref None (job_StartTime (Snapshot ref))) (metrics u)))"
  using assms
  by (simp add: ReportChunk_def peek_def Get_None Let_def callback_def count_chunk_def
        count_entry_def fresh_entry_def split: prod.splits)

lemma Chunk_create_logger:
  assumes "peek (hook_id ref None) u = None"
  shows "logger (ReportChunk ref None chunk u) =
           logger u @ lru_fire (metrics u)
             (snd (lru_Add (hook_id ref None)
                (fresh_entry ref None (job_StartTime (Snapshot ref))) (metrics u)))"
proof -
  let ?a = "lru_Add (hook_id ref None)
              (fresh_entry ref None (job_StartTime (Snapshot ref))) (metrics u)"
  have "logger (ReportChunk ref None chunk u) = logger u @ lru_fire (fst ?a) (snd ?a)"
    using assms
    by (simp add: ReportChunk_def peek_def Get_None Let_def callback_def count_chunk_def
          fresh_entry_def split: prod.splits)
  then show ?thesis by (simp add: fire_same [OF Add_cb])
qed

lemma append_error_eq:
  "append_error key err c = touch_update key (\<lambda>m. m\<lparr>Errors := Errors m @ [err]\<rparr>) c"
  by (simp add: append_error_def touch_update_def)

lemma Error_metrics:
  "metrics (ReportError ref err u) =
     (let c = touch_update (hook_id ref None) (\<lambda>m. m\<lparr>Errors := Errors m @ [err]\<rparr>) (metrics u)
      in case errors_As err of
           None \<Rightarrow> c
         | Some unit \<Rightarrow> touch_update (hook_id ref unit) (\<lambda>m. m\<lparr>Errors := Errors m @ [err]\<rparr>) c)"
  by (simp add: ReportError_def append_error_eq Let_def split: option.splits)

lemma Error_logger: "logger (ReportError ref err u) = logger u"
  by (simp add: ReportError_def Let_def split: option.splits)

lemma Finish_loop_Cons:
  "Finish_loop ref (key # keys) c =
     Finish_loop ref keys
       (if HasPrefix key (hook_id ref None) then touch_update key (finish_entry ref) c else c)"
proof (cases "lru_peek key c")
  case None
  then show ?thesis by (simp add: Get_None touch_update_absent)
next
  case (Some m)
  show ?thesis
  proof (cases "Unit m = None")
    case True
    with Some show ?thesis
      by (simp add: Get_Some touch_update_present finish_entry_def Let_def)
  next
    case False
    have "touch_update key (finish_entry ref) c = lru_assign key m (snd (lru_Get key c))"
      using Some False by (auto simp: touch_update_present finish_entry_def)
    also have "\<dots> = touch_update key (\<lambda>m. m) c" using Some by (simp add: touch_update_present)
    also have "\<dots> = snd (lru_Get key c)" using Some by (rule touch_update_id)
    finally have "touch_update key (finish_entry ref) c = snd (lru_Get key c)" .
    moreover from False obtain y where "Unit m = Some y" by auto
    ultimately show ?thesis using Some by (simp add: Get_Some)
  qed
qed

subsection \<open>Effect of each method on the entry under a key\<close>

lemma Start_peek_same:
  assumes "hook_inv u"
  shows "peek (hook_id ref unit) (StartUnitChunking ref unit start u) =
           Some (fresh_entry ref unit (Some start))"
  using assms by (simp add: peek_def Start_metrics Add_peek_same hook_inv_ok)

lemma Start_peek_other:
  assumes "hook_inv u" "k \<noteq> hook_id ref unit"
  shows "peek k (StartUnitChunking ref unit start u) = None
       \<or> peek k (StartUnitChunking ref unit start u) = peek k u"
  using assms by (simp add: peek_def Start_metrics Add_peek_other hook_inv_ok)

lemma Start_inv:
  assumes "hook_inv u"
  shows "hook_inv (StartUnitChunking ref unit start u)"
proof -
  let ?u' = "StartUnitChunking ref unit start u"
  have "cache_ok (metrics ?u')" using assms by (simp add: Start_metrics Add_ok hook_inv_ok)
  moreover have "k = key_of v \<and> \<not> handled v" if "peek k ?u' = Some v" for k v
  proof (cases "k = hook_id ref unit")
    case True
    with that Start_peek_same [OF assms, of ref unit start] show ?thesis by auto
  next
    case False
    with that Start_peek_other [OF assms False, of start] have "peek k u = Some v" by auto
    with assms show ?thesis by (auto dest: hook_inv_entry)
  qed
  ultimately show ?thesis by (auto simp: hook_inv_iff)
qed

lemma End_peek:
  "peek k (EndUnitChunking ref unit end u) =
     (if k = hook_id ref unit then map_option (\<lambda>m. m\<lparr>EndTime := Some end\<rparr>) (peek k u)
      else peek k u)"
  by (simp add: peek_def End_metrics touch_update_peek)

lemma End_inv:
  assumes "hook_inv u"
  shows "hook_inv (EndUnitChunking ref unit end u)"
proof -
  let ?u' = "EndUnitChunking ref unit end u"
  have "cache_ok (metrics ?u')" using assms by (simp add: End_metrics touch_update_ok hook_inv_ok)
  moreover have "k = key_of v \<and> \<not> handled v" if "peek k ?u' = Some v" for k v
    using that assms by (auto simp: End_peek split: if_splits dest: hook_inv_entry)
  ultimately show ?thesis by (auto simp: hook_inv_iff)
qed

lemma Chunk_peek_present:
  assumes "peek (hook_id ref unit) u = Some m"
  shows "peek k (ReportChunk ref unit chunk u) =
           (if k = hook_id ref unit then Some (count_entry chunk m) else peek k u)"
  using assms by (simp add: Chunk_present peek_def touch_update_peek)

lemma Chunk_peek_create:
  assumes "hook_inv u" "peek (hook_id ref None) u = None"
  shows "peek (hook_id ref None) (ReportChunk ref None chunk u) =
           Some (count_entry chunk (fresh_entry ref None (job_StartTime (Snapshot ref))))"
  using assms
  by (simp add: peek_def Chunk_create_metrics [unfolded peek_def] assign_peek Add_peek_same hook_inv_ok)

lemma Chunk_peek_other:
  assumes "hook_inv u" "k \<noteq> hook_id ref unit"
  shows "peek k (ReportChunk ref unit chunk u) = None
       \<or> peek k (ReportChunk ref unit chunk u) = peek k u"
proof (cases "peek (hook_id ref unit) u")
  case (Some m)
  with assms show ?thesis by (simp add: Chunk_peek_present)
next
  case None
  show ?thesis
  proof (cases unit)
    case (Some x)
    with None show ?thesis by (simp add: Chunk_evicted)
  next
    case unit: None
    with None assms show ?thesis
      by (simp add: peek_def Chunk_create_metrics [unfolded peek_def] assign_peek
            Add_peek_other hook_inv_ok)
  qed
qed

lemma Chunk_inv:
  assumes "hook_inv u"
  shows "hook_inv (ReportChunk ref unit chunk u)"
proof (cases "peek (hook_id ref unit) u")
  case (Some m)
  let ?u' = "ReportChunk ref unit chunk u"
  have "cache_ok (metrics ?u')"
    using assms Some by (simp add: Chunk_present touch_update_ok hook_inv_ok)
  moreover have "k = key_of v \<and> \<not> handled v" if "peek k ?u' = Some v" for k v
    using that assms Some
    by (auto simp: Chunk_peek_present split: if_splits dest: hook_inv_entry)
  ultimately show ?thesis by (auto simp: hook_inv_iff)
next
  case None
  show ?thesis
  proof (cases unit)
    case (Some x)
    with None assms show ?thesis by (simp add: Chunk_evicted)
  next
    case unit: None
    let ?u' = "ReportChunk ref None chunk u"
    from None unit have absent: "peek (hook_id ref None) u = None" by simp
    have "cache_ok (metrics ?u')"
      using assms absent by (simp add: Chunk_create_metrics assign_ok Add_ok hook_inv_ok)
    moreover have "k = key_of v \<and> \<not> handled v" if "peek k ?u' = Some v" for k v
    proof (cases "k = hook_id ref None")
      case True
      with that Chunk_peek_create [OF assms absent, of chunk] show ?thesis by auto
    next
      case False
      with that Chunk_peek_other [OF assms False, of chunk] have "peek k u = Some v" by auto
      with assms show ?thesis by (auto dest: hook_inv_entry)
    qed
    ultimately show ?thesis using unit by (auto simp: hook_inv_iff)
  qed
qed

lemma Error_peek:
  "peek k (ReportError ref err u) =
     (let add = map_option (\<lambda>m. m\<lparr>Errors := Errors m @ [err]\<rparr>);
          first = (\<lambda>k'. if k' = hook_id ref None then add (peek k' u) else peek k' u)
      in case errors_As err of
           None \<Rightarrow> first k
         | Some unit \<Rightarrow> if k = hook_id ref unit then add (first k) else first k)"
  by (simp add: peek_def Error_metrics touch_update_peek Let_def split: option.splits)

lemma Error_inv:
  assumes "hook_inv u"
  shows "hook_inv (ReportError ref err u)"
proof -
  let ?u' = "ReportError ref err u"
  have "cache_ok (metrics ?u')"
    using assms by (simp add: Error_metrics touch_update_ok hook_inv_ok Let_def split: option.splits)
  moreover have "k = key_of v \<and> \<not> handled v" if "peek k ?u' = Some v" for k v
    using that assms
    by (auto simp: Error_peek Let_def split: if_splits option.splits dest: hook_inv_entry)
  ultimately show ?thesis by (auto simp: hook_inv_iff)
qed

lemma finish_entry_idem [simp]: "finish_entry ref (finish_entry ref m) = finish_entry ref m"
  by (simp add: finish_entry_def)

lemma Finish_loop_peek:
  "lru_peek k (Finish_loop ref keys c) =
     (if k \<in> set keys \<and> HasPrefix k (hook_id ref None)
      then map_option (finish_entry ref) (lru_peek k c) else lru_peek k c)"
proof (induction keys arbitrary: c)
  case Nil
  then show ?case by simp
next
  case (Cons key keys)
  show ?case
    unfolding Finish_loop_Cons Cons.IH
    by (cases "lru_peek k c") (auto simp: touch_update_peek)
qed

lemma Finish_loop_ok: "cache_ok c \<Longrightarrow> cache_ok (Finish_loop ref keys c)"
proof (induction keys arbitrary: c)
  case Nil
  then show ?case by simp
next
  case (Cons key keys)
  then show ?case unfolding Finish_loop_Cons by (simp add: touch_update_ok)
qed

lemma Keys_set: "k \<in> set (lru_Keys c) \<longleftrightarrow> lru_peek k c \<noteq> None"
  by (simp add: lru_Keys_def lru_peek_def map_of_eq_None_iff)

lemma Finish_peek:
  "peek k (Finish ref u) =
     (if HasPrefix k (hook_id ref None) then map_option (finish_entry ref) (peek k u)
      else peek k u)"
  using Keys_set [of k "metrics u"]
  by (cases "lru_peek k (metrics u)") (auto simp: peek_def Finish_def Finish_loop_peek)

lemma Finish_logger: "logger (Finish ref u) = logger u"
  by (simp add: Finish_def)

lemma Finish_inv:
  assumes "hook_inv u"
  shows "hook_inv (Finish ref u)"
proof -
  have "cache_ok (metrics (Finish ref u))"
    using assms by (simp add: Finish_def Finish_loop_ok hook_inv_ok)
  moreover have "k = key_of v \<and> \<not> handled v" if "peek k (Finish ref u) = Some v" for k v
    using that assms by (auto simp: Finish_peek split: if_splits dest: hook_inv_entry)
  ultimately show ?thesis by (auto simp: hook_inv_iff)
qed

subsection \<open>The drain loop\<close>

lemma UM_loop_absent:
  assumes "peek key u = None"
  shows "UnitMetrics_loop (key # keys) out u = UnitMetrics_loop keys out u"
  using assms by (simp add: peek_def Get_None)

lemma UM_loop_unfinished:
  assumes "peek key u = Some m" "\<not> IsFinished m"
  shows "UnitMetrics_loop (key # keys) out u =
           UnitMetrics_loop keys (out @ [m]) (u\<lparr>metrics := snd (lru_Get key (metrics u))\<rparr>)"
  using assms by (simp add: peek_def Get_Some)

lemma UM_loop_finished:
  assumes "peek key u = Some m" "IsFinished m"
  shows "UnitMetrics_loop (key # keys) out u =
           UnitMetrics_loop keys (out @ [m])
             (drained key m u)"
proof -
  let ?C = "(metrics u)\<lparr>lru_items := (key, m) # lru_without key (lru_items (metrics u))\<rparr>"
  from assms have g: "lru_Get key (metrics u) = (Some m, ?C)"
    by (simp add: peek_def Get_Some)
  have "lru_peek key (lru_assign key (m\<lparr>handled := True\<rparr>) ?C) = Some (m\<lparr>handled := True\<rparr>)"
    by (simp add: assign_peek) (simp add: lru_peek_def)
  then have p: "map_of (lru_items (lru_assign key (m\<lparr>handled := True\<rparr>) ?C)) key
                  = Some (m\<lparr>handled := True\<rparr>)"
    by (simp add: lru_peek_def)
  show ?thesis using assms(2)
    by (simp add: g p lru_Remove_def drained_def)
qed

lemma metrics_drained:
  "metrics (drained key m u) =
     fst (lru_Remove key
       (lru_assign key (m\<lparr>handled := True\<rparr>) (snd (lru_Get key (metrics u)))))"
  by (simp add: drained_def)

lemma cb_drained: "lru_onEvict (metrics (drained key m u)) = lru_onEvict (metrics u)"
  by (simp add: metrics_drained Remove_cb assign_cb Get_cb)

lemma logger_drained:
  "logger (drained key m u) = logger u @ lru_fire (metrics u) [(key, m\<lparr>handled := True\<rparr>)]"
proof -
  have e: "lru_onEvict (fst (lru_Remove key
          (lru_assign key (m\<lparr>handled := True\<rparr>) (snd (lru_Get key (metrics u))))))
        = lru_onEvict (metrics u)"
    by (simp add: Remove_cb assign_cb Get_cb)
  show ?thesis by (simp add: drained_def logger_callback fire_same [OF e])
qed


lemma UM_step_cases:
  obtains (absent) "peek key u = None"
  | (unfinished) m where "peek key u = Some m" "\<not> IsFinished m"
  | (finished) m where "peek key u = Some m" "IsFinished m"
  by (cases "peek key u") auto

lemma UM_loop_logger:
  assumes "lru_onEvict (metrics u) = None \<or> lru_onEvict (metrics u) = Some onEvict"
  shows "logger (snd (UnitMetrics_loop keys out u)) = logger u"
  using assms
proof (induction keys arbitrary: out u)
  case Nil
  then show ?case by simp
next
  case (Cons key keys)
  show ?case
  proof (cases rule: UM_step_cases [of key u])
    case absent
    show ?thesis unfolding UM_loop_absent [OF absent] using Cons.prems by (rule Cons.IH)
  next
    case (unfinished m)
    have "logger (snd (UnitMetrics_loop keys (out @ [m])
            (u\<lparr>metrics := snd (lru_Get key (metrics u))\<rparr>)))
          = logger (u\<lparr>metrics := snd (lru_Get key (metrics u))\<rparr>)"
      using Cons.prems by (intro Cons.IH) (simp add: Get_cb)
    then show ?thesis unfolding UM_loop_unfinished [OF unfinished] by simp
  next
    case (finished m)
    have "logger (snd (UnitMetrics_loop keys (out @ [m]) (drained key m u)))
          = logger (drained key m u)"
      using Cons.prems by (intro Cons.IH) (simp add: cb_drained)
    moreover have "lru_fire (metrics u) [(key, m\<lparr>handled := True\<rparr>)] = []"
      using Cons.prems by (auto simp: fire_none fire_default)
    ultimately show ?thesis unfolding UM_loop_finished [OF finished]
      by (simp add: logger_drained)
  qed
qed

lemma UM_loop_ok:
  "cache_ok (metrics u) \<Longrightarrow> cache_ok (metrics (snd (UnitMetrics_loop keys out u)))"
proof (induction keys arbitrary: out u)
  case Nil
  then show ?case by simp
next
  case (Cons key keys)
  show ?case
  proof (cases rule: UM_step_cases [of key u])
    case absent
    show ?thesis unfolding UM_loop_absent [OF absent] using Cons.prems by (rule Cons.IH)
  next
    case (unfinished m)
    have "cache_ok (metrics (u\<lparr>metrics := snd (lru_Get key (metrics u))\<rparr>))"
      using Cons.prems by (simp add: Get_ok)
    then show ?thesis unfolding UM_loop_unfinished [OF unfinished] by (rule Cons.IH)
  next
    case (finished m)
    have "cache_ok (metrics (drained key m u))"
      using Cons.prems by (simp add: metrics_drained Get_ok assign_ok Remove_ok)
    then show ?thesis unfolding UM_loop_finished [OF finished] by (rule Cons.IH)
  qed
qed

lemma UM_loop_peek:
  "peek k (snd (UnitMetrics_loop keys out u)) =
     (if k \<in> set keys \<and> (\<exists>m. peek k u = Some m \<and> IsFinished m) then None else peek k u)"
proof (induction keys arbitrary: out u)
  case Nil
  then show ?case by simp
next
  case (Cons key keys)
  show ?case
  proof (cases rule: UM_step_cases [of key u])
    case absent
    then show ?thesis unfolding UM_loop_absent [OF absent] Cons.IH by auto
  next
    case (unfinished m)
    have "peek k (u\<lparr>metrics := snd (lru_Get key (metrics u))\<rparr>) = peek k u"
      by (simp add: peek_def Get_peek)
    then show ?thesis using unfinished
      unfolding UM_loop_unfinished [OF unfinished] Cons.IH by auto
  next
    case (finished m)
    have "peek k (drained key m u)
          = (if k = key then None else peek k u)"
      by (simp add: peek_def metrics_drained Remove_peek assign_peek Get_peek)
    then show ?thesis using finished
      unfolding UM_loop_finished [OF finished] Cons.IH by auto
  qed
qed

lemma map_filter_agree:
  "(\<And>x. x \<in> set xs \<Longrightarrow> f x = g x) \<Longrightarrow> List.map_filter f xs = List.map_filter g xs"
  by (induction xs) (auto simp: List.map_filter_simps split: option.splits)

lemma UM_loop_fst:
  "distinct keys \<Longrightarrow>
   fst (UnitMetrics_loop keys out u) = out @ List.map_filter (\<lambda>k. peek k u) keys"
proof (induction keys arbitrary: out u)
  case Nil
  then show ?case by (simp add: List.map_filter_simps)
next
  case (Cons key keys)
  then have d: "distinct keys" and n: "key \<notin> set keys" by auto
  show ?case
  proof (cases rule: UM_step_cases [of key u])
    case absent
    then show ?thesis unfolding UM_loop_absent [OF absent] Cons.IH [OF d]
      by (simp add: List.map_filter_simps)
  next
    case (unfinished m)
    let ?u = "u\<lparr>metrics := snd (lru_Get key (metrics u))\<rparr>"
    have "List.map_filter (\<lambda>k. peek k ?u) keys = List.map_filter (\<lambda>k. peek k u) keys"
      by (rule map_filter_agree) (simp add: peek_def Get_peek)
    then show ?thesis using unfinished
      unfolding UM_loop_unfinished [OF unfinished] Cons.IH [OF d]
      by (simp add: List.map_filter_simps)
  next
    case (finished m)
    let ?u = "drained key m u"
    have "List.map_filter (\<lambda>k. peek k ?u) keys = List.map_filter (\<lambda>k. peek k u) keys"
      using n
      by (intro map_filter_agree)
        (auto simp: peek_def metrics_drained Remove_peek assign_peek Get_peek)
    then show ?thesis using finished
      unfolding UM_loop_finished [OF finished] Cons.IH [OF d]
      by (simp add: List.map_filter_simps)
  qed
qed

lemma filter_map_filter_key:
  assumes "distinct keys" "\<And>k' m. f k' = Some m \<Longrightarrow> key_of m = k'"
  shows "filter (\<lambda>r. key_of r = k) (List.map_filter f keys) =
           (if k \<in> set keys then (case f k of None \<Rightarrow> [] | Some m \<Rightarrow> [m]) else [])"
  using assms(1)
proof (induction keys)
  case Nil
  then show ?case by (simp add: List.map_filter_simps)
next
  case (Cons key keys)
  then have IH: "filter (\<lambda>r. key_of r = k) (List.map_filter f keys) =
           (if k \<in> set keys then (case f k of None \<Rightarrow> [] | Some m \<Rightarrow> [m]) else [])"
    and n: "key \<notin> set keys" by auto
  show ?case
  proof (cases "f key")
    case None
    with IH n show ?thesis by (auto simp: List.map_filter_simps)
  next
    case (Some m)
    then have "key_of m = key" by (rule assms(2))
    with Some IH n show ?thesis by (auto simp: List.map_filter_simps)
  qed
qed

subsection \<open>The drain read\<close>

lemma Keys_peek: "k \<in> set (lru_Keys (metrics u)) \<longleftrightarrow> peek k u \<noteq> None"
  by (simp add: Keys_set peek_def)

lemma UM_records:
  assumes "hook_inv u"
  shows "filter (\<lambda>r. key_of r = k) (fst (UnitMetrics_call u)) =
           (case peek k u of None \<Rightarrow> [] | Some m \<Rightarrow> [m])"
proof -
  have d: "distinct (lru_Keys (metrics u))"
    using assms by (simp add: lru_Keys_def hook_inv_def cache_ok_def)
  have "filter (\<lambda>r. key_of r = k) (List.map_filter (\<lambda>k. peek k u) (lru_Keys (metrics u))) =
          (if k \<in> set (lru_Keys (metrics u))
           then (case peek k u of None \<Rightarrow> [] | Some m \<Rightarrow> [m]) else [])"
    using d assms by (intro filter_map_filter_key) (auto dest: hook_inv_entry)
  then show ?thesis
    by (auto simp: UnitMetrics_call_def UM_loop_fst [OF d] Keys_peek split: option.splits)
qed

lemma UM_peek:
  "peek k (snd (UnitMetrics_call u)) =
     (case peek k u of None \<Rightarrow> None | Some m \<Rightarrow> if IsFinished m then None else Some m)"
  by (auto simp: UnitMetrics_call_def UM_loop_peek Keys_peek split: option.splits)

lemma UM_logger:
  assumes "lru_onEvict (metrics u) = None \<or> lru_onEvict (metrics u) = Some onEvict"
  shows "logger (snd (UnitMetrics_call u)) = logger u"
  using assms by (simp add: UnitMetrics_call_def UM_loop_logger)


lemma UM_inv:
  assumes "hook_inv u"
  shows "hook_inv (snd (UnitMetrics_call u))"
proof -
  have "cache_ok (metrics (snd (UnitMetrics_call u)))"
    using assms by (simp add: UnitMetrics_call_def UM_loop_ok hook_inv_ok)
  moreover have "k = key_of v \<and> \<not> handled v" if "peek k (snd (UnitMetrics_call u)) = Some v" for k v
    using that assms by (auto simp: UM_peek split: option.splits if_splits dest: hook_inv_entry)
  ultimately show ?thesis by (auto simp: hook_inv_iff)
qed

subsection \<open>Sequences of calls\<close>

lemma step_inv: "hook_inv u \<Longrightarrow> hook_inv (step x u)"
  by (cases x) (simp_all add: Start_inv End_inv Chunk_inv Error_inv Finish_inv UM_inv)

lemma run_inv: "hook_inv u \<Longrightarrow> hook_inv (run xs u)"
  by (induction xs arbitrary: u) (simp_all add: step_inv)

lemma run_append: "run (xs @ ys) u = run ys (run xs u)"
  by (induction xs arbitrary: u) simp_all









lemma hook2_inv: "hook_inv hook2"
  by (simp add: hook2_def WithUnitHookCache_def NewUnitHook_def hook_inv_def cache_ok_def lru_New_def)

subsection \<open>One call, seen from one key\<close>

lemma untouched_step:
  assumes "hook_inv u" "\<not> touches k x"
  shows "peek k (step x u) = None \<or> peek k (step x u) = peek k u"
proof (cases x)
  case (OpStart ref unit start)
  with assms show ?thesis using Start_peek_other [of u k ref unit start] by auto
next
  case (OpEnd ref unit e)
  with assms show ?thesis by (simp add: End_peek)
next
  case (OpChunk ref unit chunk)
  with assms show ?thesis using Chunk_peek_other [of u k ref unit chunk] by auto
next
  case (OpError ref err)
  with assms show ?thesis by (auto simp: Error_peek Let_def split: option.splits)
next
  case (OpFinish ref)
  with assms show ?thesis by (simp add: Finish_peek)
next
  case OpUnitMetrics
  then show ?thesis by (simp add: UM_peek split: option.splits)
qed

lemma own_chunk_step:
  assumes "peek k u = Some m" "own_chunk k x = Some c"
  shows "peek k (step x u) = Some (count_entry c m)"
proof (cases x)
  case (OpChunk ref unit chunk)
  with assms have "hook_id ref unit = k" "chunk = c" by (auto split: if_splits)
  with assms OpChunk show ?thesis by (simp add: Chunk_peek_present)
qed (use assms in simp_all)

lemma absent_step:
  assumes "hook_inv u" "peek k u = None" "\<not> creates k x"
  shows "peek k (step x u) = None"
proof (cases x)
  case (OpStart ref unit start)
  with assms show ?thesis using Start_peek_other [of u k ref unit start] by auto
next
  case (OpEnd ref unit e)
  with assms show ?thesis by (auto simp: End_peek)
next
  case (OpChunk ref unit chunk)
  show ?thesis
  proof (cases "hook_id ref unit = k")
    case True
    with assms OpChunk show ?thesis by (simp add: Chunk_evicted)
  next
    case False
    with assms OpChunk show ?thesis using Chunk_peek_other [of u k ref unit chunk] by auto
  qed
next
  case (OpError ref err)
  with assms show ?thesis by (auto simp: Error_peek Let_def split: option.splits)
next
  case (OpFinish ref)
  with assms show ?thesis by (simp add: Finish_peek)
next
  case OpUnitMetrics
  with assms show ?thesis by (simp add: UM_peek)
qed

lemma absent_run:
  assumes "hook_inv u" "peek k u = None" "\<forall>x \<in> set xs. \<not> creates k x"
  shows "peek k (run xs u) = None"
  using assms
proof (induction xs arbitrary: u)
  case Nil
  then show ?case by simp
next
  case (Cons x xs)
  then have "hook_inv (step x u)" "peek k (step x u) = None"
    by (simp_all add: step_inv absent_step)
  with Cons show ?case by simp
qed

lemma resident_through_head: "resident_through k xs u \<Longrightarrow> peek k u \<noteq> None"
  by (cases xs) simp_all

lemma chunks_for_Cons:
  "chunks_for k (x # xs) =
     (case own_chunk k x of None \<Rightarrow> chunks_for k xs | Some c \<Rightarrow> c # chunks_for k xs)"
  by (simp add: chunks_for_def split: option.splits)

lemma chunks_for_Nil [simp]: "chunks_for k [] = []"
  by (simp add: chunks_for_def)

lemma session_counts:
  assumes "hook_inv u" "peek k u = Some m"
    and "\<forall>x \<in> set xs. own_chunk k x \<noteq> None \<or> \<not> touches k x"
    and "resident_through k xs u"
  shows "peek k (run xs u) =
           Some (m\<lparr>TotalChunks := TotalChunks m + word_of_nat (length (chunks_for k xs)),
                   TotalBytes := TotalBytes m + word_of_nat (payload (chunks_for k xs))\<rparr>)"
  using assms
proof (induction xs arbitrary: u m)
  case Nil
  then show ?case by (simp add: payload_def)
next
  case (Cons x xs)
  have inv': "hook_inv (step x u)" using Cons.prems(1) by (rule step_inv)
  have rest: "\<forall>x \<in> set xs. own_chunk k x \<noteq> None \<or> \<not> touches k x" using Cons.prems(3) by simp
  have res: "resident_through k xs (step x u)" using Cons.prems(4) by simp
  then have here: "peek k (step x u) \<noteq> None" by (rule resident_through_head)
  show ?case
  proof (cases "own_chunk k x")
    case (Some c)
    have p: "peek k (step x u) = Some (count_entry c m)"
      using Cons.prems(2) Some by (rule own_chunk_step)
    show ?thesis
      using Cons.IH [OF inv' p rest res] Some
      by (simp add: chunks_for_Cons payload_def count_entry_def add.assoc)
  next
    case None
    then have "\<not> touches k x" using Cons.prems(3) by simp
    with untouched_step [OF Cons.prems(1)] here have p: "peek k (step x u) = Some m"
      using Cons.prems(2) by metis
    show ?thesis
      using Cons.IH [OF inv' p rest res] None by (simp add: chunks_for_Cons)
  qed
qed

lemma unat_counter: "n < 2 ^ 64 \<Longrightarrow> unat (word_of_nat n :: 64 word) = n"
  by (simp add: unat_of_nat)

section \<open>Claims about the key derivation\<close>

text \<open>
  C9, as amended. The key is a function of the source id, the job id and the unit
  identifier, where a nil unit counts as the empty identifier: two keys are equal
  exactly when these three agree. The key of a job's nil unit is a prefix of a key
  exactly when that key belongs to the same job, and a strict prefix exactly when,
  in addition, the unit's identifier is not empty.
\<close>

theorem C9_key_derivation:
  "(hook_id r1 u1 = hook_id r2 u2 \<longleftrightarrow>
      SourceID r1 = SourceID r2 \<and> JobID r1 = JobID r2 \<and> unitID_of u1 = unitID_of u2)
   \<and> (HasPrefix (hook_id r2 u2) (hook_id r1 None) \<longleftrightarrow>
      SourceID r1 = SourceID r2 \<and> JobID r1 = JobID r2)
   \<and> (strict_prefix (hook_id r1 None) (hook_id r2 u2) \<longleftrightarrow>
      SourceID r1 = SourceID r2 \<and> JobID r1 = JobID r2 \<and> unitID_of u2 \<noteq> [])"
proof -
  have a: "hook_id r1 u1 = hook_id r2 u2 \<longleftrightarrow>
      SourceID r1 = SourceID r2 \<and> JobID r1 = JobID r2 \<and> unitID_of u1 = unitID_of u2"
    by (rule hook_id_eq_iff)
  have b: "HasPrefix (hook_id r2 u2) (hook_id r1 None) \<longleftrightarrow>
      SourceID r1 = SourceID r2 \<and> JobID r1 = JobID r2"
    unfolding HasPrefix_def by (rule hook_id_prefix_iff)
  have "hook_id r1 None = hook_id r2 u2 \<longleftrightarrow>
      SourceID r1 = SourceID r2 \<and> JobID r1 = JobID r2 \<and> unitID_of u2 = []"
    using hook_id_eq_iff [of r1 None r2 u2] by (auto simp: unitID_of_def)
  then have c: "strict_prefix (hook_id r1 None) (hook_id r2 u2) \<longleftrightarrow>
      SourceID r1 = SourceID r2 \<and> JobID r1 = JobID r2 \<and> unitID_of u2 \<noteq> []"
    using hook_id_prefix_iff [of r1 r2 u2] by (auto simp: strict_prefix_def)
  from a b c show ?thesis by blast
qed

text \<open>
  C9 as stated fails: a nil unit and a unit with the empty identifier are distinct
  inputs with the same key, and the nil unit's key is then no strict prefix.
\<close>

theorem C9_counterexample:
  "(None :: SourceUnit option) \<noteq> empty_unit
   \<and> hook_id job1 None = hook_id job1 empty_unit
   \<and> \<not> strict_prefix (hook_id job1 None) (hook_id job1 empty_unit)"
  by (simp add: empty_unit_def hook_id_def)

subsection \<open>What one call does to a resident entry\<close>

lemma resident_step:
  assumes "hook_inv u" "peek k u = Some m" "peek k (step x u) = Some m'"
  shows "(restarts k x \<and> (\<exists>ref unit start. x = OpStart ref unit start \<and> m' = fresh_entry ref unit (Some start)))
       \<or> (\<not> restarts k x \<and> Unit m' = Unit m \<and> Parent m' = Parent m \<and> StartTime m' =
            (case x of OpFinish ref \<Rightarrow>
               if HasPrefix k (hook_id ref None) \<and> Unit m = None
               then job_StartTime (Snapshot ref) else StartTime m
             | _ \<Rightarrow> StartTime m)
          \<and> EndTime m' =
            (case x of
               OpEnd ref unit e \<Rightarrow> if hook_id ref unit = k then Some e else EndTime m
             | OpFinish ref \<Rightarrow>
                 if HasPrefix k (hook_id ref None) \<and> Unit m = None
                 then job_EndTime (Snapshot ref) else EndTime m
             | _ \<Rightarrow> EndTime m)
          \<and> TotalChunks m' = TotalChunks m + (case own_chunk k x of None \<Rightarrow> 0 | Some c \<Rightarrow> 1)
          \<and> TotalBytes m' = TotalBytes m +
               (case own_chunk k x of None \<Rightarrow> 0 | Some c \<Rightarrow> word_of_nat (length (Data c))))"
proof (cases x)
  case (OpStart ref unit start)
  show ?thesis
  proof (cases "hook_id ref unit = k")
    case True
    with assms OpStart Start_peek_same [of u ref unit start] show ?thesis by auto
  next
    case False
    with assms OpStart Start_peek_other [of u k ref unit start] show ?thesis by auto
  qed
next
  case (OpEnd ref unit e)
  with assms show ?thesis by (auto simp: End_peek split: if_splits)
next
  case (OpChunk ref unit chunk)
  show ?thesis
  proof (cases "hook_id ref unit = k")
    case True
    with assms OpChunk show ?thesis by (auto simp: Chunk_peek_present count_entry_def)
  next
    case False
    with assms OpChunk Chunk_peek_other [of u k ref unit chunk] show ?thesis by auto
  qed
next
  case (OpError ref err)
  with assms show ?thesis by (auto simp: Error_peek Let_def split: option.splits if_splits)
next
  case (OpFinish ref)
  with assms show ?thesis by (auto simp: Finish_peek finish_entry_def split: if_splits)
next
  case OpUnitMetrics
  with assms show ?thesis by (auto simp: UM_peek split: if_splits)
qed

lemma created_step:
  assumes "hook_inv u" "peek k u = None" "peek k (step x u) = Some m'"
  shows "(\<exists>ref unit start. x = OpStart ref unit start \<and> hook_id ref unit = k
            \<and> m' = fresh_entry ref unit (Some start))
       \<or> (\<exists>ref chunk. x = OpChunk ref None chunk \<and> hook_id ref None = k \<and> Unit m' = None)"
proof -
  have c: "creates k x" using absent_step [OF assms(1,2), of x] assms(3) by auto
  show ?thesis
  proof (cases x)
    case (OpStart ref unit start)
    with c assms Start_peek_same [of u ref unit start] show ?thesis by auto
  next
    case (OpChunk ref unit chunk)
    with c have "hook_id ref None = k" "unit = None" by auto
    with assms OpChunk Chunk_peek_create [of u ref chunk] show ?thesis
      by (auto simp: count_entry_def fresh_entry_def)
  qed (use c in simp_all)
qed

lemma unit_nil_step:
  assumes "hook_inv u" "\<forall>m. peek k u = Some m \<longrightarrow> Unit m = None" "\<not> names_unit k x"
  shows "\<forall>m'. peek k (step x u) = Some m' \<longrightarrow> Unit m' = None"
proof (intro allI impI)
  fix m'
  assume after: "peek k (step x u) = Some m'"
  show "Unit m' = None"
  proof (cases "peek k u")
    case None
    from created_step [OF assms(1) None after] assms(3) show ?thesis
      by (auto simp: fresh_entry_def)
  next
    case (Some m)
    from resident_step [OF assms(1) Some after] assms(2,3) Some show ?thesis
      by (auto simp: fresh_entry_def)
  qed
qed

lemma unit_nil_run:
  assumes "hook_inv u" "\<forall>m. peek k u = Some m \<longrightarrow> Unit m = None"
    and "\<forall>x \<in> set xs. \<not> names_unit k x"
  shows "\<forall>m'. peek k (run xs u) = Some m' \<longrightarrow> Unit m' = None"
  using assms
proof (induction xs arbitrary: u)
  case Nil
  then show ?case by simp
next
  case (Cons x xs)
  have a: "hook_inv (step x u)" using Cons.prems(1) by (rule step_inv)
  have nx: "\<not> names_unit k x" and rest: "\<forall>x \<in> set xs. \<not> names_unit k x"
    using Cons.prems(3) by simp_all
  have b: "\<forall>m'. peek k (step x u) = Some m' \<longrightarrow> Unit m' = None"
    by (rule unit_nil_step [OF Cons.prems(1,2) nx])
  from Cons.IH [OF a b rest] show ?case by simp
qed

lemma counters_run:
  assumes "hook_inv u" "peek k u = Some m"
    and "\<forall>x \<in> set xs. \<not> restarts k x" "resident_through k xs u"
  shows "\<exists>m'. peek k (run xs u) = Some m'
          \<and> TotalChunks m' = TotalChunks m + word_of_nat (length (chunks_for k xs))
          \<and> TotalBytes m' = TotalBytes m + word_of_nat (payload (chunks_for k xs))"
  using assms
proof (induction xs arbitrary: u m)
  case Nil
  then show ?case by (simp add: payload_def)
next
  case (Cons x xs)
  have inv': "hook_inv (step x u)" using Cons.prems(1) by (rule step_inv)
  have res: "resident_through k xs (step x u)" using Cons.prems(4) by simp
  then obtain m1 where m1: "peek k (step x u) = Some m1"
    using resident_through_head by fastforce
  have nr: "\<not> restarts k x" and rest: "\<forall>x \<in> set xs. \<not> restarts k x"
    using Cons.prems(3) by simp_all
  from resident_step [OF Cons.prems(1,2) m1] nr
  have c1: "TotalChunks m1 = TotalChunks m + (case own_chunk k x of None \<Rightarrow> 0 | Some c \<Rightarrow> 1)"
    and b1: "TotalBytes m1 = TotalBytes m +
               (case own_chunk k x of None \<Rightarrow> 0 | Some c \<Rightarrow> word_of_nat (length (Data c)))"
    by simp_all
  from Cons.IH [OF inv' m1 rest res] obtain m' where
    m': "peek k (run xs (step x u)) = Some m'"
    and c2: "TotalChunks m' = TotalChunks m1 + word_of_nat (length (chunks_for k xs))"
    and b2: "TotalBytes m' = TotalBytes m1 + word_of_nat (payload (chunks_for k xs))"
    by blast
  have "TotalChunks m' = TotalChunks m + word_of_nat (length (chunks_for k (x # xs)))"
    unfolding c2 c1 by (cases "own_chunk k x") (simp_all add: chunks_for_Cons)
  moreover have "TotalBytes m' = TotalBytes m + word_of_nat (payload (chunks_for k (x # xs)))"
    unfolding b2 b1 by (cases "own_chunk k x") (simp_all add: chunks_for_Cons payload_def)
  ultimately show ?case using m' by simp
qed

lemma counter_le:
  fixes a :: "64 word"
  assumes "unat a + n < 2 ^ 64"
  shows "a \<le> a + word_of_nat n"
proof -
  from assms have n: "n < 2 ^ 64" by simp
  then have "unat (word_of_nat n :: 64 word) = n" by (rule unat_counter)
  with assms have "unat (a + word_of_nat n) = unat a + n"
    by (simp add: unat_word_ariths)
  then show ?thesis by (simp add: word_le_nat_alt)
qed

lemma finish_clears_same:
  "Unit m' = Unit m \<Longrightarrow> key_of m' = key_of m \<Longrightarrow> finish_clears m' x = finish_clears m x"
  by (cases x) simp_all

lemma end_kept_step:
  assumes "hook_inv u" "peek k u = Some m" "EndTime m \<noteq> None"
    and "\<not> restarts k x" "\<not> finish_clears m x" "peek k (step x u) = Some m1"
  shows "EndTime m1 \<noteq> None \<and> Unit m1 = Unit m \<and> (\<not> ends k x \<longrightarrow> EndTime m1 = EndTime m)"
proof -
  have k: "key_of m = k" using hook_inv_entry [OF assms(1,2)] by simp
  from resident_step [OF assms(1,2,6)] assms(3,4,5) k show ?thesis
    by (cases x) (auto split: if_splits)
qed

lemma end_kept_run:
  assumes "hook_inv u" "peek k u = Some m" "EndTime m \<noteq> None"
    and "\<forall>x \<in> set xs. \<not> restarts k x \<and> \<not> finish_clears m x" "resident_through k xs u"
  shows "\<exists>m'. peek k (run xs u) = Some m' \<and> EndTime m' \<noteq> None
           \<and> ((\<forall>x \<in> set xs. \<not> ends k x) \<longrightarrow> EndTime m' = EndTime m)"
  using assms
proof (induction xs arbitrary: u m)
  case Nil
  then show ?case by simp
next
  case (Cons x xs)
  have inv': "hook_inv (step x u)" using Cons.prems(1) by (rule step_inv)
  have res: "resident_through k xs (step x u)" using Cons.prems(5) by simp
  then obtain m1 where m1: "peek k (step x u) = Some m1"
    using resident_through_head by fastforce
  have x: "\<not> restarts k x" "\<not> finish_clears m x" using Cons.prems(4) by simp_all
  from end_kept_step [OF Cons.prems(1,2,3) x m1]
  have e1: "EndTime m1 \<noteq> None" and un: "Unit m1 = Unit m"
    and same: "\<not> ends k x \<longrightarrow> EndTime m1 = EndTime m" by simp_all
  have "key_of m1 = k" using hook_inv_entry [OF inv' m1] by simp
  moreover have "key_of m = k" using hook_inv_entry [OF Cons.prems(1,2)] by simp
  ultimately have ks: "key_of m1 = key_of m" by simp
  have "finish_clears m1 y = finish_clears m y" for y
    by (rule finish_clears_same [OF un ks])
  then have rest: "\<forall>x \<in> set xs. \<not> restarts k x \<and> \<not> finish_clears m1 x"
    using Cons.prems(4) by simp
  from Cons.IH [OF inv' m1 e1 rest res] same show ?case by auto
qed

subsection \<open>Evaluating the hook on concrete inputs\<close>

lemma key_job1_unit1: "hook_id job1 unit1 = ''1/2/u1''"
  by (simp add: hook_id_def job1_def unit1_def fmt_d_def digits.simps digit_char_def)

lemma key_job1_unit2: "hook_id job1 unit2 = ''1/2/u2''"
  by (simp add: hook_id_def job1_def unit2_def fmt_d_def digits.simps digit_char_def)

lemma key_job1_nil: "hook_id job1 None = ''1/2/''"
  by (simp add: hook_id_def job1_def fmt_d_def digits.simps digit_char_def)

lemma key_job1_empty: "hook_id job1 empty_unit = ''1/2/''"
  by (simp add: hook_id_def job1_def empty_unit_def fmt_d_def digits.simps digit_char_def)

lemma key_job_open_nil: "hook_id job_open None = ''3/4/''"
  by (simp add: hook_id_def job_open_def fmt_d_def digits.simps digit_char_def)

lemmas eval_defs = StartUnitChunking_def EndUnitChunking_def ReportChunk_def ReportError_def
  Finish_def UnitMetrics_call_def lru_Add_def lru_Get_def lru_Remove_def lru_assign_def
  lru_Keys_def lru_without_def lru_New_def lru_NewWithEvict_def lru_fire_def lru_peek_def
  peek_def callback_def onEvict_def
  count_chunk_def append_error_def hook2_def WithUnitHookCache_def NewUnitHook_def
  key_job1_unit1 key_job1_unit2 key_job1_nil key_job1_empty key_job_open_nil
  IsFinished_def HasPrefix_def
  Snapshot_def Let_def

section \<open>Claims about the life cycle of a unit\<close>

lemma resident_through_append:
  "resident_through k (xs @ ys) u \<longleftrightarrow>
     resident_through k xs u \<and> resident_through k ys (run xs u)"
proof (induction xs arbitrary: u)
  case Nil
  show ?case using resident_through_head [of k ys u] by auto
next
  case (Cons x xs)
  then show ?case by auto
qed

lemma untouched_own_chunk: "\<not> touches k x \<Longrightarrow> own_chunk k x = None"
  by (cases x) simp_all

lemma untouched_chunks: "\<forall>x \<in> set xs. \<not> touches k x \<Longrightarrow> chunks_for k xs = []"
  by (induction xs) (simp_all add: chunks_for_Cons untouched_own_chunk)

lemma untouched_run:
  assumes "hook_inv u" "peek k u = Some m"
    and "\<forall>x \<in> set xs. \<not> touches k x" "resident_through k xs u"
  shows "peek k (run xs u) = Some m"
proof -
  have "\<forall>x \<in> set xs. own_chunk k x \<noteq> None \<or> \<not> touches k x" using assms(3) by simp
  from session_counts [OF assms(1,2) this assms(4)] show ?thesis
    by (simp add: untouched_chunks [OF assms(3)] payload_def)
qed

text \<open>
  C1, as amended. Start a unit at \<open>T0\<close>; let any calls follow that either report a
  chunk for this unit or do not address its key; end the unit at \<open>T1\<close>; let any
  calls follow that do not address the key; the entry staying resident from the
  start up to the drain read. That drain read returns exactly one record for the
  key: the unit and job of the calls, start \<open>T0\<close>, end \<open>T1\<close>, as many chunks as were
  reported and the sum of their payload lengths (as 64-bit counters, exact below
  \<open>2 ^ 64\<close>), and hence an elapsed time of \<open>T1 - T0\<close> (as a 64-bit duration). After
  that, as long as no call creates the key anew (a \<^verbatim>\<open>StartUnitChunking\<close> for the key
  or, for the no-unit key, a \<^verbatim>\<open>ReportChunk\<close> with a nil unit), a drain read returns
  no record for the key.
\<close>

theorem C1_unit_lifecycle_amended:
  assumes "hook_inv u0"
    and "\<forall>x \<in> set mid. own_chunk (hook_id ref unit) x \<noteq> None \<or> \<not> touches (hook_id ref unit) x"
    and "\<forall>x \<in> set gap. \<not> touches (hook_id ref unit) x"
    and "resident_through (hook_id ref unit) (mid @ OpEnd ref unit T1 # gap)
           (StartUnitChunking ref unit T0 u0)"
    and "\<forall>x \<in> set later. \<not> creates (hook_id ref unit) x"
  shows "let k = hook_id ref unit;
             cs = chunks_for k mid;
             u1 = run (OpStart ref unit T0 # mid @ OpEnd ref unit T1 # gap) u0;
             r = \<lparr>Unit = unit, Parent = ref, StartTime = Some T0, EndTime = Some T1,
                  TotalChunks = word_of_nat (length cs), TotalBytes = word_of_nat (payload cs),
                  Errors = [], handled = False\<rparr>
         in filter (\<lambda>m. key_of m = k) (fst (UnitMetrics_call u1)) = [r]
          \<and> (length cs < 2 ^ 64 \<longrightarrow> unat (TotalChunks r) = length cs)
          \<and> (payload cs < 2 ^ 64 \<longrightarrow> unat (TotalBytes r) = payload cs)
          \<and> ElapsedTime now r = time_Sub T1 T0
          \<and> (- (2 ^ 63) \<le> T1 - T0 \<and> T1 - T0 < 2 ^ 63 \<longrightarrow> ElapsedTime now r = T1 - T0)
          \<and> filter (\<lambda>m. key_of m = k)
               (fst (UnitMetrics_call (run later (snd (UnitMetrics_call u1))))) = []"
proof -
  define k where "k = hook_id ref unit"
  define cs where "cs = chunks_for k mid"
  define us where "us = StartUnitChunking ref unit T0 u0"
  define um where "um = run mid us"
  define ue where "ue = EndUnitChunking ref unit T1 um"
  define u1 where "u1 = run (OpStart ref unit T0 # mid @ OpEnd ref unit T1 # gap) u0"
  define r where "r = \<lparr>Unit = unit, Parent = ref, StartTime = Some T0, EndTime = Some T1,
                  TotalChunks = word_of_nat (length cs), TotalBytes = word_of_nat (payload cs),
                  Errors = [], handled = False\<rparr>"
  have u1: "u1 = run gap ue"
    by (simp add: u1_def ue_def um_def us_def run_append)
  have res_mid: "resident_through k mid us"
    and res_gap: "resident_through k gap ue"
    using assms(4) unfolding k_def us_def ue_def um_def
    by (simp_all add: resident_through_append)
  have inv_s: "hook_inv us" unfolding us_def using assms(1) by (rule Start_inv)
  have peek_s: "peek k us = Some (fresh_entry ref unit (Some T0))"
    unfolding us_def k_def using assms(1) by (rule Start_peek_same)
  have inv_m: "hook_inv um" unfolding um_def using inv_s by (rule run_inv)
  have "peek k um = Some ((fresh_entry ref unit (Some T0))
          \<lparr>TotalChunks := TotalChunks (fresh_entry ref unit (Some T0)) + word_of_nat (length cs),
           TotalBytes := TotalBytes (fresh_entry ref unit (Some T0)) + word_of_nat (payload cs)\<rparr>)"
    unfolding um_def cs_def
    using inv_s peek_s assms(2) [folded k_def] res_mid by (rule session_counts)
  then have peek_e: "peek k ue = Some r"
    by (simp add: ue_def End_peek k_def r_def fresh_entry_def)
  have inv_e: "hook_inv ue" unfolding ue_def using inv_m by (rule End_inv)
  have peek_1: "peek k u1 = Some r"
    unfolding u1 using inv_e peek_e assms(3) [folded k_def] res_gap by (rule untouched_run)
  have inv_1: "hook_inv u1" unfolding u1 using inv_e by (rule run_inv)
  have first: "filter (\<lambda>m. key_of m = k) (fst (UnitMetrics_call u1)) = [r]"
    using UM_records [OF inv_1, of k] peek_1 by simp
  have fin: "IsFinished r" by (simp add: r_def IsFinished_def)
  have inv_2: "hook_inv (snd (UnitMetrics_call u1))" using inv_1 by (rule UM_inv)
  have gone: "peek k (snd (UnitMetrics_call u1)) = None"
    using peek_1 fin by (simp add: UM_peek)
  have "peek k (run later (snd (UnitMetrics_call u1))) = None"
    using inv_2 gone assms(5) unfolding k_def by (rule absent_run)
  moreover have "hook_inv (run later (snd (UnitMetrics_call u1)))" using inv_2 by (rule run_inv)
  ultimately have never: "filter (\<lambda>m. key_of m = k)
               (fst (UnitMetrics_call (run later (snd (UnitMetrics_call u1))))) = []"
    using UM_records [of "run later (snd (UnitMetrics_call u1))" k] by simp
  have el: "ElapsedTime now r = time_Sub T1 T0" by (simp add: ElapsedTime_def r_def)
  have range: "- (2 ^ 63) \<le> T1 - T0 \<and> T1 - T0 < 2 ^ 63 \<longrightarrow> ElapsedTime now r = T1 - T0"
    unfolding el by (simp add: time_Sub_def)
  have n1: "length cs < 2 ^ 64 \<longrightarrow> unat (TotalChunks r) = length cs"
    by (simp add: r_def unat_counter)
  have n2: "payload cs < 2 ^ 64 \<longrightarrow> unat (TotalBytes r) = payload cs"
    by (simp add: r_def unat_counter)
  from first n1 n2 el range never show ?thesis
    unfolding Let_def k_def [symmetric] cs_def [symmetric] u1_def [symmetric] r_def [symmetric]
    by blast
qed

theorem C1_witness:
  "hook_inv hook2
   \<and> resident_through (hook_id job1 unit1)
        ([OpChunk job1 unit1 chunk100, OpStart job1 unit2 7, OpChunk job1 unit1 chunk50]
         @ OpEnd job1 unit1 20 # [OpError job1 boom])
        (StartUnitChunking job1 unit1 10 hook2)
   \<and> filter (\<lambda>m. key_of m = hook_id job1 unit1)
        (fst (UnitMetrics_call
           (run (OpStart job1 unit1 10 #
                 [OpChunk job1 unit1 chunk100, OpStart job1 unit2 7, OpChunk job1 unit1 chunk50]
                 @ OpEnd job1 unit1 20 # [OpError job1 boom]) hook2)))
       = [\<lparr>Unit = unit1, Parent = job1, StartTime = Some 10, EndTime = Some 20,
           TotalChunks = 2, TotalBytes = 150, Errors = [], handled = False\<rparr>]
   \<and> ElapsedTime 0 \<lparr>Unit = unit1, Parent = job1, StartTime = Some 10, EndTime = Some 20,
           TotalChunks = 2, TotalBytes = 150, Errors = [], handled = False\<rparr> = 10
   \<and> filter (\<lambda>m. key_of m = hook_id job1 unit1)
        (fst (UnitMetrics_call (run [OpUnitMetrics, OpEnd job1 unit1 30]
           (snd (UnitMetrics_call
             (run (OpStart job1 unit1 10 #
                 [OpChunk job1 unit1 chunk100, OpStart job1 unit2 7, OpChunk job1 unit1 chunk50]
                 @ OpEnd job1 unit1 20 # [OpError job1 boom]) hook2)))))) = []"
proof -
  let ?mid = "[OpChunk job1 unit1 chunk100, OpStart job1 unit2 7, OpChunk job1 unit1 chunk50]"
  let ?gap = "[OpError job1 boom]"
  let ?later = "[OpUnitMetrics, OpEnd job1 unit1 30]"
  have h1: "hook_inv hook2" by (rule hook2_inv)
  have h2: "\<forall>x \<in> set ?mid. own_chunk (hook_id job1 unit1) x \<noteq> None
              \<or> \<not> touches (hook_id job1 unit1) x"
    by (simp add: key_job1_unit1 key_job1_unit2)
  have h3: "\<forall>x \<in> set ?gap. \<not> touches (hook_id job1 unit1) x"
    by (simp add: key_job1_unit1 key_job1_nil boom_def)
  have h4: "resident_through (hook_id job1 unit1) (?mid @ OpEnd job1 unit1 20 # ?gap)
              (StartUnitChunking job1 unit1 10 hook2)"
    by (simp add: eval_defs boom_def)
  have h5: "\<forall>x \<in> set ?later. \<not> creates (hook_id job1 unit1) x"
    by simp
  have cs: "chunks_for (hook_id job1 unit1) ?mid = [chunk100, chunk50]"
    by (simp add: chunks_for_def key_job1_unit1 key_job1_unit2)
  have pl: "payload [chunk100, chunk50] = 150"
    by (simp add: payload_def chunk100_def chunk50_def)
  note w = C1_unit_lifecycle_amended [OF h1 h2 h3 h4 h5, of 0, unfolded Let_def cs pl]
  from w h1 h4 show ?thesis by simp
qed

text \<open>
  C1 as stated fails in its last part: after the drain read has returned and
  removed the record, a new \<^verbatim>\<open>StartUnitChunking\<close> for the same unit, or for a job
  without units one more \<^verbatim>\<open>ReportChunk\<close>, creates the key anew, and the next drain
  read returns a record for it again.
\<close>

theorem C1_counterexample:
  "filter (\<lambda>m. key_of m = hook_id job1 unit1)
     (fst (UnitMetrics_call
        (run [OpStart job1 unit1 10, OpChunk job1 unit1 chunk100, OpEnd job1 unit1 20] hook2)))
     = [\<lparr>Unit = unit1, Parent = job1, StartTime = Some 10, EndTime = Some 20,
         TotalChunks = 1, TotalBytes = 100, Errors = [], handled = False\<rparr>]
   \<and> filter (\<lambda>m. key_of m = hook_id job1 unit1)
       (fst (UnitMetrics_call (run [OpStart job1 unit1 30]
          (snd (UnitMetrics_call
             (run [OpStart job1 unit1 10, OpChunk job1 unit1 chunk100, OpEnd job1 unit1 20]
                hook2))))))
     = [\<lparr>Unit = unit1, Parent = job1, StartTime = Some 30, EndTime = None,
         TotalChunks = 0, TotalBytes = 0, Errors = [], handled = False\<rparr>]
   \<and> filter (\<lambda>m. key_of m = hook_id job1 None)
       (fst (UnitMetrics_call (run [OpStart job1 None 10, OpEnd job1 None 20] hook2)))
     = [\<lparr>Unit = None, Parent = job1, StartTime = Some 10, EndTime = Some 20,
         TotalChunks = 0, TotalBytes = 0, Errors = [], handled = False\<rparr>]
   \<and> filter (\<lambda>m. key_of m = hook_id job1 None)
       (fst (UnitMetrics_call (run [OpChunk job1 None chunk50]
          (snd (UnitMetrics_call (run [OpStart job1 None 10, OpEnd job1 None 20] hook2))))))
     = [\<lparr>Unit = None, Parent = job1, StartTime = Some 5, EndTime = None,
         TotalChunks = 1, TotalBytes = 50, Errors = [], handled = False\<rparr>]"
  by (simp add: eval_defs key_of_def chunk100_def chunk50_def) (simp add: job1_def)

section \<open>Claims about reported errors\<close>

text \<open>
  C5. \<^verbatim>\<open>ReportError\<close> appends the error to the job's no-unit entry whenever that
  entry is resident. An error without the unit-scoped wrapper changes nothing else.
  An error with the wrapper is also appended to the entry of the wrapped unit if
  that entry is resident, and the unit-scoped append is skipped if it is absent
  (\<open>map_option\<close> leaves an absent entry absent); no other entry changes. When the
  wrapped unit's key is the no-unit key, the two appends meet in one entry.
\<close>

theorem C5_report_error:
  "(errors_As err = None \<longrightarrow>
      peek k (ReportError ref err u) =
        (if k = hook_id ref None then map_option (add_error err) (peek k u) else peek k u))
   \<and> (errors_As err = Some unit \<and> hook_id ref unit \<noteq> hook_id ref None \<longrightarrow>
      peek k (ReportError ref err u) =
        (if k = hook_id ref None \<or> k = hook_id ref unit
         then map_option (add_error err) (peek k u) else peek k u))
   \<and> (errors_As err = Some unit \<and> hook_id ref unit = hook_id ref None \<longrightarrow>
      peek k (ReportError ref err u) =
        (if k = hook_id ref None
         then map_option (add_error err) (map_option (add_error err) (peek k u)) else peek k u))"
proof -
  have add: "(\<lambda>m. m\<lparr>Errors := Errors m @ [err]\<rparr>) = add_error err"
    by (rule ext) (simp add: add_error_def)
  show ?thesis
    by (auto simp: Error_peek add Let_def)
qed

theorem C5_witness:
  "peek (hook_id job1 None) (ReportError job1 boom
      (run [OpChunk job1 None chunk50, OpStart job1 unit1 10] hook2))
     = Some \<lparr>Unit = None, Parent = job1, StartTime = Some 5, EndTime = None,
             TotalChunks = 1, TotalBytes = 50, Errors = [boom], handled = False\<rparr>
   \<and> peek (hook_id job1 unit1) (ReportError job1 boom
      (run [OpChunk job1 None chunk50, OpStart job1 unit1 10] hook2))
     = Some \<lparr>Unit = unit1, Parent = job1, StartTime = Some 10, EndTime = None,
             TotalChunks = 0, TotalBytes = 0, Errors = [], handled = False\<rparr>
   \<and> peek (hook_id job1 unit1) (ReportError job1 (ChunkError unit1 boom)
      (run [OpChunk job1 None chunk50, OpStart job1 unit1 10] hook2))
     = Some \<lparr>Unit = unit1, Parent = job1, StartTime = Some 10, EndTime = None,
             TotalChunks = 0, TotalBytes = 0, Errors = [ChunkError unit1 boom], handled = False\<rparr>
   \<and> peek (hook_id job1 None) (ReportError job1 (ChunkError unit1 boom)
      (run [OpChunk job1 None chunk50, OpStart job1 unit1 10] hook2))
     = Some \<lparr>Unit = None, Parent = job1, StartTime = Some 5, EndTime = None,
             TotalChunks = 1, TotalBytes = 50, Errors = [ChunkError unit1 boom], handled = False\<rparr>
   \<and> peek (hook_id job1 unit2) (ReportError job1 (ChunkError unit2 boom)
      (run [OpChunk job1 None chunk50, OpStart job1 unit1 10] hook2)) = None"
proof -
  let ?u = "run [OpChunk job1 None chunk50, OpStart job1 unit1 10] hook2"
  have p0: "peek (hook_id job1 None) ?u
     = Some \<lparr>Unit = None, Parent = job1, StartTime = Some 5, EndTime = None,
             TotalChunks = 1, TotalBytes = 50, Errors = [], handled = False\<rparr>"
    by (simp add: eval_defs chunk50_def) (simp add: job1_def)
  have p1: "peek (hook_id job1 unit1) ?u
     = Some \<lparr>Unit = unit1, Parent = job1, StartTime = Some 10, EndTime = None,
             TotalChunks = 0, TotalBytes = 0, Errors = [], handled = False\<rparr>"
    by (simp add: eval_defs chunk50_def)
  have p2: "peek (hook_id job1 unit2) ?u = None"
    by (simp add: eval_defs chunk50_def)
  have plain: "errors_As boom = None" by (simp add: boom_def)
  have k1: "hook_id job1 unit1 \<noteq> hook_id job1 None" by (simp add: key_job1_unit1 key_job1_nil)
  have k2: "hook_id job1 unit2 \<noteq> hook_id job1 None" by (simp add: key_job1_unit2 key_job1_nil)
  have k12: "hook_id job1 unit2 \<noteq> hook_id job1 unit1" by (simp add: key_job1_unit2 key_job1_unit1)
  have a: "peek (hook_id job1 None) (ReportError job1 boom ?u)
             = map_option (add_error boom) (peek (hook_id job1 None) ?u)"
    using C5_report_error [where err = boom and k = "hook_id job1 None" and ref = job1 and u = ?u] plain by simp
  have b: "peek (hook_id job1 unit1) (ReportError job1 boom ?u) = peek (hook_id job1 unit1) ?u"
    using C5_report_error [where err = boom and k = "hook_id job1 unit1" and ref = job1 and u = ?u] plain k1 by simp
  have c: "peek (hook_id job1 unit1) (ReportError job1 (ChunkError unit1 boom) ?u)
             = map_option (add_error (ChunkError unit1 boom)) (peek (hook_id job1 unit1) ?u)"
    using C5_report_error [where err = "ChunkError unit1 boom" and unit = unit1 and ref = job1
        and k = "hook_id job1 unit1" and u = ?u] k1
    by simp
  have d: "peek (hook_id job1 None) (ReportError job1 (ChunkError unit1 boom) ?u)
             = map_option (add_error (ChunkError unit1 boom)) (peek (hook_id job1 None) ?u)"
    using C5_report_error [where err = "ChunkError unit1 boom" and unit = unit1 and ref = job1
        and k = "hook_id job1 None" and u = ?u] k1
    by simp
  have e: "peek (hook_id job1 unit2) (ReportError job1 (ChunkError unit2 boom) ?u)
             = map_option (add_error (ChunkError unit2 boom)) (peek (hook_id job1 unit2) ?u)"
    using C5_report_error [where err = "ChunkError unit2 boom" and unit = unit2 and ref = job1
        and k = "hook_id job1 unit2" and u = ?u] k2
    by simp
  show ?thesis
    unfolding a b c d e p0 p1 p2 by (simp add: add_error_def)
qed

text \<open>
  C10. When the error carries the unit-scoped wrapper with a nil unit and the job's
  no-unit entry is resident, one call appends the error twice to that entry.
\<close>

theorem C10_nil_unit_error_twice:
  assumes "errors_As err = Some None" and "peek (hook_id ref None) u = Some m"
  shows "peek (hook_id ref None) (ReportError ref err u) = Some (m\<lparr>Errors := Errors m @ [err, err]\<rparr>)
       \<and> (\<forall>m'. peek (hook_id ref None) (ReportError ref err u) = Some m' \<longrightarrow>
            length (Errors m') = length (Errors m) + 2)"
  using assms by (simp add: Error_peek Let_def)

theorem C10_witness:
  "errors_As (ChunkError None boom) = Some None
   \<and> peek (hook_id job1 None) (run [OpChunk job1 None chunk50] hook2)
       = Some \<lparr>Unit = None, Parent = job1, StartTime = Some 5, EndTime = None,
               TotalChunks = 1, TotalBytes = 50, Errors = [], handled = False\<rparr>
   \<and> peek (hook_id job1 None)
       (ReportError job1 (ChunkError None boom) (run [OpChunk job1 None chunk50] hook2))
       = Some \<lparr>Unit = None, Parent = job1, StartTime = Some 5, EndTime = None,
               TotalChunks = 1, TotalBytes = 50,
               Errors = [ChunkError None boom, ChunkError None boom], handled = False\<rparr>"
proof -
  let ?u = "run [OpChunk job1 None chunk50] hook2"
  have h1: "errors_As (ChunkError None boom) = Some None" by simp
  have h2: "peek (hook_id job1 None) ?u
     = Some \<lparr>Unit = None, Parent = job1, StartTime = Some 5, EndTime = None,
             TotalChunks = 1, TotalBytes = 50, Errors = [], handled = False\<rparr>"
    by (simp add: eval_defs chunk50_def) (simp add: job1_def)
  from C10_nil_unit_error_twice [OF h1 h2] h1 h2 show ?thesis by simp
qed

section \<open>Claims about chunks of a source without units\<close>

text \<open>
  C6. A chunk reported with a nil unit while the no-unit key is not resident creates
  the synthetic entry, with the start time of the job's snapshot, and counts the
  chunk into it: one chunk, and the length of its payload in bytes.
\<close>

theorem C6_synthetic_entry:
  assumes "hook_inv u" and "peek (hook_id ref None) u = None"
  shows "peek (hook_id ref None) (ReportChunk ref None chunk u) =
           Some \<lparr>Unit = None, Parent = ref, StartTime = job_StartTime (Snapshot ref),
                 EndTime = None, TotalChunks = 1,
                 TotalBytes = word_of_nat (length (Data chunk)), Errors = [], handled = False\<rparr>"
  using Chunk_peek_create [OF assms, of chunk] by (simp add: count_entry_def fresh_entry_def)

theorem C6_witness:
  "hook_inv hook2 \<and> peek (hook_id job1 None) hook2 = None
   \<and> peek (hook_id job1 None) (ReportChunk job1 None chunk100 hook2) =
       Some \<lparr>Unit = None, Parent = job1, StartTime = Some 5, EndTime = None,
             TotalChunks = 1, TotalBytes = 100, Errors = [], handled = False\<rparr>"
proof -
  have h1: "hook_inv hook2" by (rule hook2_inv)
  have h2: "peek (hook_id job1 None) hook2 = None" by (simp add: eval_defs)
  have s: "job_StartTime (Snapshot job1) = Some 5" by (simp add: Snapshot_def job1_def)
  have l: "length (Data chunk100) = 100" by (simp add: chunk100_def)
  from C6_synthetic_entry [OF h1 h2, where chunk = chunk100] h1 h2 show ?thesis by (simp add: s l)
qed

section \<open>Claims about missing entries\<close>

text \<open>
  C8. A method that finds no entry does nothing and reports nothing: every method is a
  total function of the state and returns no error value. \<^verbatim>\<open>EndUnitChunking\<close> on
  an absent key leaves the hook as it is; so does \<^verbatim>\<open>ReportChunk\<close> with a unit whose
  key is absent; so does \<^verbatim>\<open>ReportError\<close> when neither the no-unit entry nor the
  wrapped unit's entry is resident.
\<close>

theorem C8_missing_entry_noop:
  "(peek (hook_id ref unit) u = None \<longrightarrow> EndUnitChunking ref unit T u = u)
   \<and> (peek (hook_id ref unit) u = None \<and> unit \<noteq> None \<longrightarrow> ReportChunk ref unit chunk u = u)
   \<and> (peek (hook_id ref None) u = None
        \<and> (\<forall>unit'. errors_As err = Some unit' \<longrightarrow> peek (hook_id ref unit') u = None)
      \<longrightarrow> ReportError ref err u = u)"
proof -
  have a: "EndUnitChunking ref unit T u = u" if "peek (hook_id ref unit) u = None"
    using that by (simp add: EndUnitChunking_def peek_def Get_None)
  have b: "ReportChunk ref unit chunk u = u" if "peek (hook_id ref unit) u = None" "unit \<noteq> None"
    using that by (rule Chunk_evicted)
  have c: "ReportError ref err u = u"
    if "peek (hook_id ref None) u = None"
      "\<forall>unit'. errors_As err = Some unit' \<longrightarrow> peek (hook_id ref unit') u = None"
    using that
    by (auto simp: ReportError_def append_error_eq touch_update_absent peek_def Let_def
          split: option.splits)
  from a b c show ?thesis by blast
qed

theorem C8_witness:
  "peek (hook_id job1 unit1) hook2 = None \<and> unit1 \<noteq> None
   \<and> peek (hook_id job1 None) hook2 = None
   \<and> EndUnitChunking job1 unit1 20 hook2 = hook2
   \<and> ReportChunk job1 unit1 chunk100 hook2 = hook2
   \<and> ReportError job1 (ChunkError unit1 boom) hook2 = hook2"
proof -
  have h1: "peek (hook_id job1 unit1) hook2 = None" by (simp add: eval_defs)
  have h2: "unit1 \<noteq> None" by (simp add: unit1_def)
  have h3: "peek (hook_id job1 None) hook2 = None" by (simp add: eval_defs)
  have h4: "\<forall>unit'. errors_As (ChunkError unit1 boom) = Some unit' \<longrightarrow>
              peek (hook_id job1 unit') hook2 = None"
    using h1 by simp
  from C8_missing_entry_noop [where ref = job1 and unit = unit1 and u = hook2 and T = 20
      and chunk = chunk100 and err = "ChunkError unit1 boom"]
    h1 h2 h3 h4 show ?thesis by simp
qed

section \<open>Claims about the counters and the end time\<close>

text \<open>
  C3, as amended. Take an entry resident under a key and any sequence of calls that
  contains no \<^verbatim>\<open>StartUnitChunking\<close> for that key and during which the entry stays
  resident. Afterwards its chunk counter is the old one plus the number of chunks
  reported for the key, and its byte counter the old one plus their payload
  lengths, in 64-bit arithmetic; so neither counter decreases unless it wraps
  around at \<open>2 ^ 64\<close>.
\<close>

theorem C3_counters_amended:
  assumes "hook_inv u" and "peek k u = Some m"
    and "\<forall>x \<in> set xs. \<not> restarts k x" and "resident_through k xs u"
  shows "\<exists>m'. peek k (run xs u) = Some m'
          \<and> TotalChunks m' = TotalChunks m + word_of_nat (length (chunks_for k xs))
          \<and> TotalBytes m' = TotalBytes m + word_of_nat (payload (chunks_for k xs))
          \<and> (unat (TotalChunks m) + length (chunks_for k xs) < 2 ^ 64
               \<longrightarrow> TotalChunks m \<le> TotalChunks m')
          \<and> (unat (TotalBytes m) + payload (chunks_for k xs) < 2 ^ 64
               \<longrightarrow> TotalBytes m \<le> TotalBytes m')"
proof -
  from counters_run [OF assms] obtain m' where
    m': "peek k (run xs u) = Some m'"
    and c: "TotalChunks m' = TotalChunks m + word_of_nat (length (chunks_for k xs))"
    and b: "TotalBytes m' = TotalBytes m + word_of_nat (payload (chunks_for k xs))"
    by blast
  have "unat (TotalChunks m) + length (chunks_for k xs) < 2 ^ 64
          \<longrightarrow> TotalChunks m \<le> TotalChunks m'"
    unfolding c by (simp add: counter_le)
  moreover have "unat (TotalBytes m) + payload (chunks_for k xs) < 2 ^ 64
          \<longrightarrow> TotalBytes m \<le> TotalBytes m'"
    unfolding b by (simp add: counter_le)
  ultimately show ?thesis using m' c b by blast
qed

theorem C3_witness:
  "hook_inv (run [OpStart job1 unit1 10, OpChunk job1 unit1 chunk100] hook2)
   \<and> resident_through (hook_id job1 unit1)
        [OpChunk job1 unit1 chunk50, OpEnd job1 unit1 20, OpError job1 (ChunkError unit1 boom),
         OpFinish job1]
        (run [OpStart job1 unit1 10, OpChunk job1 unit1 chunk100] hook2)
   \<and> (\<exists>m'. peek (hook_id job1 unit1)
          (run [OpChunk job1 unit1 chunk50, OpEnd job1 unit1 20,
                OpError job1 (ChunkError unit1 boom), OpFinish job1]
             (run [OpStart job1 unit1 10, OpChunk job1 unit1 chunk100] hook2)) = Some m'
          \<and> TotalChunks m' = 2 \<and> TotalBytes m' = 150
          \<and> (1 :: 64 word) \<le> TotalChunks m' \<and> (100 :: 64 word) \<le> TotalBytes m')"
proof -
  let ?u = "run [OpStart job1 unit1 10, OpChunk job1 unit1 chunk100] hook2"
  let ?xs = "[OpChunk job1 unit1 chunk50, OpEnd job1 unit1 20,
              OpError job1 (ChunkError unit1 boom), OpFinish job1]"
  let ?m = "\<lparr>Unit = unit1, Parent = job1, StartTime = Some 10, EndTime = None,
             TotalChunks = 1, TotalBytes = 100, Errors = [], handled = False\<rparr>"
  have h1: "hook_inv ?u" by (rule run_inv [OF hook2_inv])
  have h2: "peek (hook_id job1 unit1) ?u = Some ?m"
    by (simp add: eval_defs chunk100_def)
  have h3: "\<forall>x \<in> set ?xs. \<not> restarts (hook_id job1 unit1) x" by simp
  have h4: "resident_through (hook_id job1 unit1) ?xs ?u"
    by (simp add: eval_defs chunk100_def chunk50_def)
  have cs: "chunks_for (hook_id job1 unit1) ?xs = [chunk50]"
    by (simp add: chunks_for_def)
  have pl: "payload [chunk50] = 50" by (simp add: payload_def chunk50_def)
  from C3_counters_amended [OF h1 h2 h3 h4, unfolded cs pl] h1 h4 show ?thesis by simp
qed

text \<open>
  C3 as stated fails: a second \<^verbatim>\<open>StartUnitChunking\<close> for a resident key replaces
  the entry by a fresh one, so the counters under the key drop back to zero.
\<close>

theorem C3_counterexample:
  "peek (hook_id job1 unit1) (run [OpStart job1 unit1 10, OpChunk job1 unit1 chunk100] hook2)
     = Some \<lparr>Unit = unit1, Parent = job1, StartTime = Some 10, EndTime = None,
             TotalChunks = 1, TotalBytes = 100, Errors = [], handled = False\<rparr>
   \<and> peek (hook_id job1 unit1)
       (run [OpStart job1 unit1 10, OpChunk job1 unit1 chunk100, OpStart job1 unit1 11] hook2)
     = Some \<lparr>Unit = unit1, Parent = job1, StartTime = Some 11, EndTime = None,
             TotalChunks = 0, TotalBytes = 0, Errors = [], handled = False\<rparr>"
  by (simp add: eval_defs chunk100_def)

text \<open>
  C4, as amended. Take an entry resident under a key whose end time is set, and any
  sequence of calls during which the entry stays resident and that contains neither
  a \<^verbatim>\<open>StartUnitChunking\<close> for that key nor a \<^verbatim>\<open>Finish\<close> that overwrites the entry
  (a no-unit entry of the finished job) from a snapshot without end time. Afterwards
  the end time is still set; and it is unchanged if no call of the sequence was an
  \<^verbatim>\<open>EndUnitChunking\<close> for the key or a \<^verbatim>\<open>Finish\<close> whose prefix matches the key.
  The end time is stored as reported: it is not compared with the start time.
\<close>

theorem C4_end_time_amended:
  assumes "hook_inv u" and "peek k u = Some m" and "EndTime m \<noteq> None"
    and "\<forall>x \<in> set xs. \<not> restarts k x \<and> \<not> finish_clears m x"
    and "resident_through k xs u"
  shows "\<exists>m'. peek k (run xs u) = Some m' \<and> EndTime m' \<noteq> None
           \<and> ((\<forall>x \<in> set xs. \<not> ends k x) \<longrightarrow> EndTime m' = EndTime m)"
  using assms by (rule end_kept_run)

theorem C4_witness:
  "hook_inv (run [OpStart job1 unit1 10, OpEnd job1 unit1 20] hook2)
   \<and> resident_through (hook_id job1 unit1)
        [OpChunk job1 unit1 chunk50, OpStart job1 unit2 12, OpFinish job1]
        (run [OpStart job1 unit1 10, OpEnd job1 unit1 20] hook2)
   \<and> (\<exists>m'. peek (hook_id job1 unit1)
          (run [OpChunk job1 unit1 chunk50, OpStart job1 unit2 12, OpFinish job1]
             (run [OpStart job1 unit1 10, OpEnd job1 unit1 20] hook2)) = Some m'
          \<and> EndTime m' \<noteq> None)"
proof -
  let ?u = "run [OpStart job1 unit1 10, OpEnd job1 unit1 20] hook2"
  let ?xs = "[OpChunk job1 unit1 chunk50, OpStart job1 unit2 12, OpFinish job1]"
  let ?m = "\<lparr>Unit = unit1, Parent = job1, StartTime = Some 10, EndTime = Some 20,
             TotalChunks = 0, TotalBytes = 0, Errors = [], handled = False\<rparr>"
  have h1: "hook_inv ?u" by (rule run_inv [OF hook2_inv])
  have h2: "peek (hook_id job1 unit1) ?u = Some ?m" by (simp add: eval_defs)
  have h3: "EndTime ?m \<noteq> None" by simp
  have n: "unit1 \<noteq> None" by (simp add: unit1_def)
  have h4: "\<forall>x \<in> set ?xs. \<not> restarts (hook_id job1 unit1) x \<and> \<not> finish_clears ?m x"
    by (simp add: key_job1_unit1 key_job1_unit2 n)
  have h5: "resident_through (hook_id job1 unit1) ?xs ?u"
    by (simp add: eval_defs chunk50_def)
  from C4_end_time_amended [OF h1 h2 h3 h4 h5] h1 h5 show ?thesis by blast
qed

text \<open>
  C4 as stated fails. A second \<^verbatim>\<open>StartUnitChunking\<close> for a resident, finished key
  clears the end time; \<^verbatim>\<open>Finish\<close> clears the end time of a no-unit entry when the
  job's snapshot has none; and an end time earlier than the start time is stored
  as it is.
\<close>

theorem C4_counterexample:
  "peek (hook_id job1 unit1) (run [OpStart job1 unit1 10, OpEnd job1 unit1 20] hook2)
     = Some \<lparr>Unit = unit1, Parent = job1, StartTime = Some 10, EndTime = Some 20,
             TotalChunks = 0, TotalBytes = 0, Errors = [], handled = False\<rparr>
   \<and> peek (hook_id job1 unit1)
       (run [OpStart job1 unit1 10, OpEnd job1 unit1 20, OpStart job1 unit1 30] hook2)
     = Some \<lparr>Unit = unit1, Parent = job1, StartTime = Some 30, EndTime = None,
             TotalChunks = 0, TotalBytes = 0, Errors = [], handled = False\<rparr>
   \<and> peek (hook_id job_open None) (run [OpStart job_open None 10, OpEnd job_open None 20] hook2)
     = Some \<lparr>Unit = None, Parent = job_open, StartTime = Some 10, EndTime = Some 20,
             TotalChunks = 0, TotalBytes = 0, Errors = [], handled = False\<rparr>
   \<and> peek (hook_id job_open None)
       (run [OpStart job_open None 10, OpEnd job_open None 20, OpFinish job_open] hook2)
     = Some \<lparr>Unit = None, Parent = job_open, StartTime = Some 1, EndTime = None,
             TotalChunks = 0, TotalBytes = 0, Errors = [], handled = False\<rparr>
   \<and> peek (hook_id job1 unit1) (run [OpStart job1 unit1 10, OpEnd job1 unit1 3] hook2)
     = Some \<lparr>Unit = unit1, Parent = job1, StartTime = Some 10, EndTime = Some 3,
             TotalChunks = 0, TotalBytes = 0, Errors = [], handled = False\<rparr>"
  by (simp add: eval_defs) (simp add: job_open_def)

section \<open>Claims about finishing a job without units\<close>

text \<open>
  C7. Let a job have no entry yet, and let calls follow among which no
  \<^verbatim>\<open>StartUnitChunking\<close> names a unit for the job's no-unit key. If the no-unit entry
  is resident when \<^verbatim>\<open>Finish\<close> is called for the job, then afterwards it is resident
  with the start time, end time and errors of the job's snapshot, and is otherwise
  unchanged.
\<close>

theorem C7_finish_no_unit:
  assumes "hook_inv u0" and "peek (hook_id ref None) u0 = None"
    and "\<forall>x \<in> set xs. \<not> names_unit (hook_id ref None) x"
    and "peek (hook_id ref None) (run xs u0) = Some m"
  shows "peek (hook_id ref None) (Finish ref (run xs u0)) =
           Some (m\<lparr>StartTime := job_StartTime (Snapshot ref),
                   EndTime := job_EndTime (Snapshot ref),
                   Errors := job_Errors (Snapshot ref)\<rparr>)"
proof -
  have "\<forall>m'. peek (hook_id ref None) (run xs u0) = Some m' \<longrightarrow> Unit m' = None"
    using assms(1) _ assms(3) by (rule unit_nil_run) (simp add: assms(2))
  with assms(4) have "Unit m = None" by simp
  then show ?thesis using assms(4)
    by (simp add: Finish_peek HasPrefix_def finish_entry_def)
qed

theorem C7_witness:
  "hook_inv hook2 \<and> peek (hook_id job1 None) hook2 = None
   \<and> peek (hook_id job1 None) (run [OpChunk job1 None chunk50, OpError job1 boom] hook2)
       = Some \<lparr>Unit = None, Parent = job1, StartTime = Some 5, EndTime = None,
               TotalChunks = 1, TotalBytes = 50, Errors = [boom], handled = False\<rparr>
   \<and> peek (hook_id job1 None)
       (Finish job1 (run [OpChunk job1 None chunk50, OpError job1 boom] hook2))
       = Some \<lparr>Unit = None, Parent = job1, StartTime = Some 5, EndTime = Some 90,
               TotalChunks = 1, TotalBytes = 50, Errors = [PlainError ''e0''], handled = False\<rparr>"
proof -
  let ?xs = "[OpChunk job1 None chunk50, OpError job1 boom]"
  have h1: "hook_inv hook2" by (rule hook2_inv)
  have h2: "peek (hook_id job1 None) hook2 = None" by (simp add: eval_defs)
  have h3: "\<forall>x \<in> set ?xs. \<not> names_unit (hook_id job1 None) x" by simp
  have h4: "peek (hook_id job1 None) (run ?xs hook2)
       = Some \<lparr>Unit = None, Parent = job1, StartTime = Some 5, EndTime = None,
               TotalChunks = 1, TotalBytes = 50, Errors = [boom], handled = False\<rparr>"
    by (simp add: eval_defs chunk50_def boom_def) (simp add: job1_def)
  have s: "Snapshot job1 = \<lparr>job_StartTime = Some 5, job_EndTime = Some 90,
             job_Errors = [PlainError ''e0'']\<rparr>"
    by (simp add: Snapshot_def job1_def)
  from C7_finish_no_unit [OF h1 h2 h3 h4] h1 h2 h4 show ?thesis by (simp add: s)
qed

subsection \<open>Evictions\<close>





lemma silent_step:
  assumes "lru_onEvict (metrics u) = None"
  shows "logger (step x u) = logger u"
proof (cases x)
  case (OpStart ref unit start)
  with assms show ?thesis by (simp add: Start_logger fire_none)
next
  case (OpEnd ref unit e)
  then show ?thesis by (simp add: End_logger)
next
  case (OpChunk ref unit chunk)
  show ?thesis
  proof (cases "peek (hook_id ref unit) u")
    case (Some m0)
    with OpChunk show ?thesis by (simp add: Chunk_present)
  next
    case None
    show ?thesis
    proof (cases unit)
      case (Some a)
      with None OpChunk show ?thesis by (simp add: Chunk_evicted)
    next
      case unit: None
      with None have "peek (hook_id ref None) u = None" by simp
      with assms OpChunk unit show ?thesis by (simp add: Chunk_create_logger fire_none)
    qed
  qed
next
  case (OpError ref err)
  then show ?thesis by (simp add: Error_logger)
next
  case (OpFinish ref)
  then show ?thesis by (simp add: Finish_logger)
next
  case OpUnitMetrics
  with assms show ?thesis by (simp add: UM_logger)
qed

subsection \<open>Filling the cache up to its capacity\<close>







section \<open>Claims about evictions\<close>



end
